theory Spec2Isabelle
  imports Main "HOL-Library.Word"
begin

section \<open>Machine types\<close>

text \<open>
  The sources assert a 64-bit \<open>size_t\<close> (\<open>STATIC_ASSERT(64b_size_t, ...)\<close> in yjit.c), so
  \<open>size_t\<close>, \<open>VALUE\<close> and raw addresses are 64-bit words; \<open>uint32_t\<close>, \<open>unsigned int\<close> and
  \<open>int\<close> are 32-bit words (read with \<open>sint\<close> where the C type is signed).
\<close>

type_synonym size_t = "64 word"
type_synonym VALUE = "64 word"
type_synonym uint32_t = "32 word"
type_synonym c_int = "32 word"
type_synonym byte = "8 word"

section \<open>mmtk\_gc\_impl.c: string sizing\<close>

text \<open>
  \<open>rb_mmtk_str_heap_size\<close> is \<open>sizeof(struct RString) + sizeof(rb_mmtk_stringext_t)\<close>.
  The two struct declarations are in headers outside the sources at hand, so the two
  \<open>sizeof\<close> values are parameters; the sum is computed in \<open>size_t\<close>.
\<close>

definition rb_mmtk_str_heap_size :: "size_t \<Rightarrow> size_t \<Rightarrow> size_t" where
  "rb_mmtk_str_heap_size sizeof_RString sizeof_stringext = sizeof_RString + sizeof_stringext"

definition rb_mmtk_string_size_impl :: "size_t \<Rightarrow> size_t \<Rightarrow> size_t \<Rightarrow> size_t" where
  "rb_mmtk_string_size_impl sizeof_RString sizeof_stringext sz =
     (if sz < rb_mmtk_str_heap_size sizeof_RString sizeof_stringext
      then rb_mmtk_str_heap_size sizeof_RString sizeof_stringext
      else sz)"

section \<open>mmtk\_gc\_impl.c: string buffers\<close>

text \<open>
  Heap objects are named by logical handles (natural numbers). A strbuf is the list of the
  bytes of its \<open>ary\<close> field, whose length is the capacity it was allocated with. A
  \<open>char *\<close> is \<open>NULL\<close>, or addresses a byte of a strbuf (\<open>Chars\<close>: handle and offset into
  \<open>ary\<close>), a byte of a string object itself (\<open>Embed\<close>: handle and offset into
  \<open>as.embed.ary\<close>), or a byte of memory outside the managed heap (\<open>Foreign\<close>: an address).
  Collection itself is outside these sources: in the model a buffer is never reclaimed and a
  handle stays valid when the collector moves the object behind it, which is what pinning
  \<open>src_obj\<close> (\<open>RB_GC_GUARD\<close>) provides for the raw pointer \<open>src\<close> in the C code.
\<close>

type_synonym obj = nat

datatype char_ptr = NULL | Chars obj nat | Embed obj nat | Foreign nat

record RString =
  embed :: bool
  heap_ptr :: char_ptr
  heap_capa :: size_t
  ext_strbuf :: obj

text \<open>
  \<open>strings\<close> holds the fields of each string object that the functions below store to;
  \<open>embed_ary\<close> holds, for a string object, the bytes that a \<open>char *\<close> into the object
  itself can read. Both are views of the same storage (\<open>as.heap\<close> and \<open>as.embed\<close> are
  members of one union), so a store to a field overlays bytes of \<open>embed_ary\<close>: see
  \<open>store_to_owner\<close>. \<open>c_mem\<close> is the readable memory outside the managed heap.
\<close>

record heap =
  mmtk_enabled :: bool
  strings :: "obj \<rightharpoonup> RString"
  strbufs :: "obj \<rightharpoonup> byte list"
  next_obj :: obj
  embed_ary :: "obj \<rightharpoonup> byte list"
  c_mem :: "nat \<rightharpoonup> byte"

datatype mm_error = Assertion_failed string | Invalid_access

text \<open>
  Modelled from the spec: \<open>rb_mmtk_new_strbuf\<close>, declared in internal/mmtk\_gc\_impl.h and
  not among the sources. The spec's \<open>allocate(capacity) -> Buffer\<close> creates a buffer of
  \<open>capacity\<close> bytes distinct from every existing one. Its initial bytes are not specified, so
  they are a parameter \<open>junk\<close> (byte \<open>i\<close> of a fresh buffer is \<open>junk i\<close>).
\<close>

definition rb_mmtk_new_strbuf :: "(nat \<Rightarrow> byte) \<Rightarrow> size_t \<Rightarrow> heap \<Rightarrow> obj \<times> heap" where
  "rb_mmtk_new_strbuf junk capa h =
     (next_obj h,
      h\<lparr>strbufs := (strbufs h)(next_obj h \<mapsto> map junk [0..<unat capa]),
        next_obj := Suc (next_obj h)\<rparr>)"

definition rb_mmtk_strbuf_to_chars :: "obj \<Rightarrow> char_ptr" where
  "rb_mmtk_strbuf_to_chars strbuf = Chars strbuf 0"

text \<open>
  Reading \<open>n\<close> bytes through a pointer, and writing a list of bytes through one. An access
  through \<open>NULL\<close> or outside the addressed object is undefined behaviour in C and \<open>None\<close>
  here.
\<close>

fun read_bytes :: "heap \<Rightarrow> char_ptr \<Rightarrow> nat \<Rightarrow> byte list option" where
  "read_bytes h NULL n = None"
| "read_bytes h (Chars b off) n =
     (case strbufs h b of
        None \<Rightarrow> None
      | Some bs \<Rightarrow> if off + n \<le> length bs then Some (take n (drop off bs)) else None)"
| "read_bytes h (Embed s off) n =
     (case embed_ary h s of
        None \<Rightarrow> None
      | Some bs \<Rightarrow> if off + n \<le> length bs then Some (take n (drop off bs)) else None)"
| "read_bytes h (Foreign a) n = those (map (\<lambda>i. c_mem h (a + i)) [0..<n])"

fun write_bytes :: "heap \<Rightarrow> char_ptr \<Rightarrow> byte list \<Rightarrow> heap option" where
  "write_bytes h NULL xs = None"
| "write_bytes h (Chars d off) xs =
     (case strbufs h d of
        None \<Rightarrow> None
      | Some ds \<Rightarrow>
          if off + length xs \<le> length ds
          then Some (h\<lparr>strbufs := (strbufs h)
                      (d \<mapsto> take off ds @ xs @ drop (off + length xs) ds)\<rparr>)
          else None)"
| "write_bytes h (Embed s off) xs =
     (case embed_ary h s of
        None \<Rightarrow> None
      | Some ds \<Rightarrow>
          if off + length xs \<le> length ds
          then Some (h\<lparr>embed_ary := (embed_ary h)
                      (s \<mapsto> take off ds @ xs @ drop (off + length xs) ds)\<rparr>)
          else None)"
| "write_bytes h (Foreign a) xs =
     (if list_all (\<lambda>i. c_mem h (a + i) \<noteq> None) [0..<length xs]
      then Some (h\<lparr>c_mem := (\<lambda>x. if a \<le> x \<and> x < a + length xs then Some (xs ! (x - a))
                                   else c_mem h x)\<rparr>)
      else None)"

text \<open>The two regions of \<open>n\<close> bytes share a byte (undefined behaviour for \<open>memcpy\<close>).\<close>

fun regions_overlap :: "char_ptr \<Rightarrow> char_ptr \<Rightarrow> nat \<Rightarrow> bool" where
  "regions_overlap (Chars d i) (Chars b j) n = (d = b \<and> i < j + n \<and> j < i + n)"
| "regions_overlap (Embed d i) (Embed b j) n = (d = b \<and> i < j + n \<and> j < i + n)"
| "regions_overlap (Foreign i) (Foreign j) n = (i < j + n \<and> j < i + n)"
| "regions_overlap dst src n = False"

definition memcpy :: "char_ptr \<Rightarrow> char_ptr \<Rightarrow> size_t \<Rightarrow> heap \<Rightarrow> mm_error + heap" where
  "memcpy dst src n h =
     (case read_bytes h src (unat n) of
        None \<Rightarrow> Inl Invalid_access
      | Some xs \<Rightarrow>
          if regions_overlap dst src (unat n) then Inl Invalid_access
          else (case write_bytes h dst xs of
                  None \<Rightarrow> Inl Invalid_access
                | Some h' \<Rightarrow> Inr h'))"

text \<open>
  A store to a field of the string object \<open>str\<close>. The field lies in the storage that
  \<open>as.embed.ary\<close> addresses, so the bytes that were readable there are overlaid. The model
  has no byte representation of a pointer or a handle, so after the store the bytes of the
  object are not readable through a \<open>char *\<close> any more (\<open>embed_ary\<close> has no entry).
\<close>

definition store_to_owner :: "obj \<Rightarrow> (RString \<Rightarrow> RString) \<Rightarrow> heap \<Rightarrow> mm_error + heap" where
  "store_to_owner str upd h =
     (case strings h str of
        None \<Rightarrow> Inl Invalid_access
      | Some rs \<Rightarrow>
          Inr (h\<lparr>strings := (strings h)(str \<mapsto> upd rs),
                 embed_ary := (embed_ary h)(str := None)\<rparr>))"

text \<open>
  Modelled from the spec: \<open>rb_mmtk_str_set_strbuf\<close> (a header function) stores the
  buffer's identity in the owner's extension slot. Together with the store to
  \<open>as.heap.ptr\<close> it is the only mutation of the owner.
\<close>

definition set_heap_ptr :: "obj \<Rightarrow> char_ptr \<Rightarrow> heap \<Rightarrow> mm_error + heap" where
  "set_heap_ptr str p h = store_to_owner str (\<lambda>rs. rs\<lparr>heap_ptr := p\<rparr>) h"

definition rb_mmtk_str_set_strbuf :: "obj \<Rightarrow> obj \<Rightarrow> heap \<Rightarrow> mm_error + heap" where
  "rb_mmtk_str_set_strbuf str strbuf h = store_to_owner str (\<lambda>rs. rs\<lparr>ext_strbuf := strbuf\<rparr>) h"

definition set_heap_capa :: "obj \<Rightarrow> size_t \<Rightarrow> heap \<Rightarrow> mm_error + heap" where
  "set_heap_capa str c h = store_to_owner str (\<lambda>rs. rs\<lparr>heap_capa := c\<rparr>) h"

text \<open>
  Statements run in the source's order; \<open>RUBY_ASSERT\<close> is modelled as checked, a failed
  assertion ending the call with \<open>Assertion_failed\<close>. \<open>src_obj\<close> is only kept alive.
\<close>

definition rb_mmtk_str_new_strbuf_copy_impl ::
    "(nat \<Rightarrow> byte) \<Rightarrow> obj \<Rightarrow> size_t \<Rightarrow> obj \<Rightarrow> char_ptr \<Rightarrow> size_t \<Rightarrow> heap \<Rightarrow> mm_error + heap" where
  "rb_mmtk_str_new_strbuf_copy_impl junk str capa src_obj src copy_size h =
     (if \<not> mmtk_enabled h then Inl (Assertion_failed ''rb_mmtk_enabled_p()'')
      else
        (case rb_mmtk_new_strbuf junk capa h of
           (strbuf, h1) \<Rightarrow>
             (case (if src \<noteq> NULL
                    then (if \<not> (capa \<ge> copy_size) then Inl (Assertion_failed ''capa >= copy_size'')
                          else memcpy (rb_mmtk_strbuf_to_chars strbuf) src copy_size h1)
                    else Inr h1) of
                Inl e \<Rightarrow> Inl e
              | Inr h2 \<Rightarrow>
                  (case set_heap_ptr str (rb_mmtk_strbuf_to_chars strbuf) h2 of
                     Inl e \<Rightarrow> Inl e
                   | Inr h3 \<Rightarrow> rb_mmtk_str_set_strbuf str strbuf h3))))"

definition rb_mmtk_str_sized_realloc_n_impl ::
    "(nat \<Rightarrow> byte) \<Rightarrow> obj \<Rightarrow> size_t \<Rightarrow> size_t \<Rightarrow> heap \<Rightarrow> mm_error + heap" where
  "rb_mmtk_str_sized_realloc_n_impl junk str new_size old_size h =
     (if \<not> mmtk_enabled h then Inl (Assertion_failed ''rb_mmtk_enabled_p()'')
      else
        (case strings h str of
           None \<Rightarrow> Inl Invalid_access
         | Some rs \<Rightarrow>
             if embed rs then Inl (Assertion_failed ''!STR_EMBED_P(str)'')
             else
               (let copy_size = (if old_size < new_size then old_size else new_size) in
                  (case rb_mmtk_str_new_strbuf_copy_impl junk str new_size
                          (ext_strbuf rs) (heap_ptr rs) copy_size h of
                     Inl e \<Rightarrow> Inl e
                   | Inr h1 \<Rightarrow> set_heap_capa str new_size h1))))"

text \<open>Every buffer in the heap was handed out by the allocator.\<close>

definition heap_wf :: "heap \<Rightarrow> bool" where
  "heap_wf h = (\<forall>b \<in> dom (strbufs h). b < next_obj h)"

section \<open>yjit.c: code units\<close>

text \<open>
  The fields of \<open>iseq->body\<close> that the functions below read or write. \<open>iseq_encoded\<close> is the
  array of \<open>iseq_size\<close> words; \<open>jit_func\<close> is the compiled-entry pointer, 0 when null.
\<close>

record iseq_body =
  iseq_size :: uint32_t
  iseq_encoded :: "VALUE list"
  builtin_inline_p :: bool
  jit_func :: VALUE

text \<open>An array read; outside the array it is undefined behaviour in C, \<open>None\<close> here.\<close>

definition rd :: "'a list \<Rightarrow> nat \<Rightarrow> 'a option" where
  "rd xs i = (if i < length xs then Some (xs ! i) else None)"

text \<open>
  The instruction tables (insns.inc, insns\_info.inc) and \<open>rb_vm_insn_addr2opcode\<close> are
  generated or defined outside the sources at hand; they are parameters.
\<close>

record insns =
  BIN_opt_invokebuiltin_delegate_leave :: c_int
  BIN_leave :: c_int
  insn_len :: "c_int \<Rightarrow> c_int"
  rb_vm_insn_addr2opcode :: "VALUE \<Rightarrow> c_int"

text \<open>
  The conjunction is evaluated left to right and stops at the first false operand, so an
  element of \<open>iseq_encoded\<close> is read only when the operands before it hold.
\<close>

definition rb_leaf_invokebuiltin_iseq_p :: "insns \<Rightarrow> iseq_body \<Rightarrow> bool option" where
  "rb_leaf_invokebuiltin_iseq_p I body =
     (let invokebuiltin_len = insn_len I (BIN_opt_invokebuiltin_delegate_leave I);
          leave_len = insn_len I (BIN_leave I)
      in if iseq_size body \<noteq> invokebuiltin_len + leave_len then Some False
         else
           (case rd (iseq_encoded body) 0 of
              None \<Rightarrow> None
            | Some e0 \<Rightarrow>
                if rb_vm_insn_addr2opcode I e0 \<noteq> BIN_opt_invokebuiltin_delegate_leave I
                then Some False
                else
                  (case rd (iseq_encoded body) (unat invokebuiltin_len) of
                     None \<Rightarrow> None
                   | Some e1 \<Rightarrow>
                       if rb_vm_insn_addr2opcode I e1 \<noteq> BIN_leave I then Some False
                       else Some (builtin_inline_p body))))"

definition rb_leaf_builtin_function :: "insns \<Rightarrow> iseq_body \<Rightarrow> VALUE option" where
  "rb_leaf_builtin_function I body =
     (case rb_leaf_invokebuiltin_iseq_p I body of
        None \<Rightarrow> None
      | Some p \<Rightarrow> if \<not> p then Some 0 else rd (iseq_encoded body) 1)"

text \<open>
  The shape the specification describes, in its words: the encoded size is the sum of the
  two instruction lengths, the instruction at index 0 is the builtin dispatch and the one
  right after it is the return.
\<close>

definition leaf_builtin_shape :: "insns \<Rightarrow> iseq_body \<Rightarrow> bool" where
  "leaf_builtin_shape I body =
     (iseq_size body =
        insn_len I (BIN_opt_invokebuiltin_delegate_leave I) + insn_len I (BIN_leave I) \<and>
      map_option (rb_vm_insn_addr2opcode I) (rd (iseq_encoded body) 0) =
        Some (BIN_opt_invokebuiltin_delegate_leave I) \<and>
      map_option (rb_vm_insn_addr2opcode I)
          (rd (iseq_encoded body) (unat (insn_len I (BIN_opt_invokebuiltin_delegate_leave I)))) =
        Some (BIN_leave I))"

text \<open>
  An instruction table for concrete runs: opcode 1 is the builtin dispatch, of length 3,
  opcode 2 is the return, of length 1, and an encoded instruction word is its opcode.
\<close>

definition sample_insn_len :: "c_int \<Rightarrow> c_int" where
  "sample_insn_len opcode = (if opcode = 1 then 3 else 1)"

definition sample_insns :: insns where
  "sample_insns =
     \<lparr>BIN_opt_invokebuiltin_delegate_leave = 1, BIN_leave = 2,
      insn_len = sample_insn_len, rb_vm_insn_addr2opcode = ucast\<rparr>"

subsection \<open>Compilation entry point\<close>

text \<open>
  Modelled from the spec: \<open>RB_VM_LOCK_ENTER\<close>, \<open>RB_VM_LOCK_LEAVE\<close> and \<open>rb_vm_barrier\<close> are
  in vm\_sync.h. The gate is a reentrant lock with a recursion-level counter: entering
  raises the level, leaving lowers it, and the barrier brings the other contexts to a safe
  point (counted here).
\<close>

record vm =
  lock_rec :: nat
  barriers :: nat
  body_of :: "VALUE \<Rightarrow> iseq_body"

definition RB_VM_LOCK_ENTER :: "vm \<Rightarrow> vm" where
  "RB_VM_LOCK_ENTER s = s\<lparr>lock_rec := Suc (lock_rec s)\<rparr>"

definition RB_VM_LOCK_LEAVE :: "vm \<Rightarrow> vm" where
  "RB_VM_LOCK_LEAVE s = s\<lparr>lock_rec := lock_rec s - 1\<rparr>"

definition rb_vm_barrier :: "vm \<Rightarrow> vm" where
  "rb_vm_barrier s = s\<lparr>barriers := Suc (barriers s)\<rparr>"

definition set_jit_func :: "VALUE \<Rightarrow> VALUE \<Rightarrow> vm \<Rightarrow> vm" where
  "set_jit_func iseq p s = s\<lparr>body_of := (body_of s)(iseq := (body_of s iseq)\<lparr>jit_func := p\<rparr>)\<rparr>"

text \<open>
  The code generator \<open>rb_yjit_iseq_gen_entry_point\<close> is defined in Rust; it is the
  parameter \<open>gen\<close>, which returns the code pointer (0 for null) and the state it leaves.
\<close>

definition rb_yjit_compile_iseq ::
    "(VALUE \<Rightarrow> VALUE \<Rightarrow> vm \<Rightarrow> VALUE \<times> vm) \<Rightarrow> VALUE \<Rightarrow> VALUE \<Rightarrow> vm \<Rightarrow> bool \<times> vm" where
  "rb_yjit_compile_iseq gen iseq ec s =
     (let s1 = RB_VM_LOCK_ENTER s;
          s2 = rb_vm_barrier s1
      in case gen iseq ec s2 of
           (code_ptr, s3) \<Rightarrow>
             (case (if code_ptr \<noteq> 0 then (True, set_jit_func iseq code_ptr s3)
                    else (False, set_jit_func iseq 0 s3)) of
                (success, s4) \<Rightarrow> (success, RB_VM_LOCK_LEAVE s4)))"

subsection \<open>Heap walk\<close>

text \<open>
  Modelled from the spec: the sanitizer interface (internal/sanitizers.h) and
  \<open>rb_obj_is_iseq\<close> are outside the sources at hand. An object is poisoned or not;
  \<open>asan_poisoned_object_p\<close> tells which, \<open>asan_unpoison_object\<close> lifts the poison and
  \<open>asan_poison_object_if\<close> puts it back when its first argument is non-null. Which objects
  are code units is read from the heap. \<open>other\<close> is the rest of the program's state, which
  the user callback may change as it likes.
\<close>

record 'u objspace =
  poisoned :: "VALUE set"
  iseq_objs :: "VALUE set"
  other :: 'u

definition asan_poisoned_object_p :: "VALUE \<Rightarrow> 'u objspace \<Rightarrow> bool" where
  "asan_poisoned_object_p v s = (v \<in> poisoned s)"

definition asan_unpoison_object :: "VALUE \<Rightarrow> 'u objspace \<Rightarrow> 'u objspace" where
  "asan_unpoison_object v s = s\<lparr>poisoned := poisoned s - {v}\<rparr>"

definition asan_poison_object_if :: "bool \<Rightarrow> VALUE \<Rightarrow> 'u objspace \<Rightarrow> 'u objspace" where
  "asan_poison_object_if ptr v s = (if ptr then s\<lparr>poisoned := insert v (poisoned s)\<rparr> else s)"

definition rb_obj_is_iseq :: "VALUE \<Rightarrow> 'u objspace \<Rightarrow> bool" where
  "rb_obj_is_iseq v s = (v \<in> iseq_objs s)"

text \<open>
  The body of the loop of \<open>for_each_iseq_i\<close>, for the object at \<open>v\<close>. The user callback is
  a function on the whole state; what it does is the only trace of its invocation.
\<close>

definition for_each_iseq_body ::
    "(VALUE \<Rightarrow> 'u objspace \<Rightarrow> 'u objspace) \<Rightarrow> VALUE \<Rightarrow> 'u objspace \<Rightarrow> 'u objspace" where
  "for_each_iseq_body callback v s =
     (let ptr = asan_poisoned_object_p v s;
          s1 = asan_unpoison_object v s;
          s2 = (if rb_obj_is_iseq v s1 then callback v s1 else s1)
      in asan_poison_object_if ptr v s2)"

text \<open>
  The loop \<open>for (; v != vend; v += stride)\<close> on 64-bit addresses. It need not end (a
  stride that never reaches \<open>vend\<close>), so the result is an option: \<open>None\<close> is a loop that
  does not return. The function returns 0.
\<close>

partial_function (option) for_each_iseq_i ::
    "(VALUE \<Rightarrow> 'u objspace \<Rightarrow> 'u objspace) \<Rightarrow> VALUE \<Rightarrow> VALUE \<Rightarrow> size_t
       \<Rightarrow> 'u objspace \<Rightarrow> (c_int \<times> 'u objspace) option" where
  "for_each_iseq_i callback v vend stride s =
     (if v \<noteq> vend
      then for_each_iseq_i callback (v + stride) vend stride (for_each_iseq_body callback v s)
      else Some (0, s))"

declare for_each_iseq_i.simps [code]

text \<open>The addresses of the \<open>n\<close> slots of a page that starts at \<open>vstart\<close>.\<close>

definition page_slots :: "VALUE \<Rightarrow> size_t \<Rightarrow> nat \<Rightarrow> VALUE list" where
  "page_slots vstart stride n = map (\<lambda>k. vstart + of_nat k * stride) [0..<n]"

text \<open>
  What the specification asks for one code unit \<open>v\<close>, in its words: the object is
  unpoisoned, the callback is invoked on it once, and the poison marks are afterwards what
  they were before.
\<close>

definition visit_code_unit ::
    "(VALUE \<Rightarrow> 'u objspace \<Rightarrow> 'u objspace) \<Rightarrow> 'u objspace \<Rightarrow> VALUE \<Rightarrow> 'u objspace" where
  "visit_code_unit callback s v =
     (callback v (s\<lparr>poisoned := poisoned s - {v}\<rparr>))\<lparr>poisoned := poisoned s\<rparr>"

text \<open>A callback for concrete runs: it appends the code unit it is given to a log.\<close>

definition log_callback :: "VALUE \<Rightarrow> VALUE list objspace \<Rightarrow> VALUE list objspace" where
  "log_callback v s = s\<lparr>other := other s @ [v]\<rparr>"

section \<open>yjit.c: page protection\<close>

text \<open>
  \<open>mprotect\<close> is the operating system's. Its behaviour is a parameter \<open>k\<close>: from the
  address, the length, the requested protection and the kernel's state it gives the return
  code (0 on success) and the kernel's next state. The wrapper \<open>mprotect\<close> below also
  records every call, so that "the OS call was not made" is a statement about the record.
\<close>

datatype prot = PROT_READ_WRITE | PROT_READ_EXEC

type_synonym 'os mprotect_fn = "VALUE \<Rightarrow> size_t \<Rightarrow> prot \<Rightarrow> 'os \<Rightarrow> c_int \<times> 'os"

record 'os sys =
  kernel :: 'os
  mprotect_calls :: "(VALUE \<times> size_t \<times> prot) list"

datatype fatal = Rb_bug string

definition mprotect :: "'os mprotect_fn \<Rightarrow> VALUE \<Rightarrow> size_t \<Rightarrow> prot \<Rightarrow> 'os sys \<Rightarrow> c_int \<times> 'os sys" where
  "mprotect k addr len p s =
     (case k addr len p (kernel s) of
        (rc, os') \<Rightarrow> (rc, \<lparr>kernel = os', mprotect_calls = mprotect_calls s @ [(addr, len, p)]\<rparr>))"

definition rb_yjit_mark_writable :: "'os mprotect_fn \<Rightarrow> VALUE \<Rightarrow> uint32_t \<Rightarrow> 'os sys \<Rightarrow> bool \<times> 'os sys" where
  "rb_yjit_mark_writable k mem_block mem_size s =
     (case mprotect k mem_block (ucast mem_size) PROT_READ_WRITE s of
        (rc, s') \<Rightarrow> if rc \<noteq> 0 then (False, s') else (True, s'))"

definition rb_yjit_mark_executable :: "'os mprotect_fn \<Rightarrow> VALUE \<Rightarrow> uint32_t \<Rightarrow> 'os sys \<Rightarrow> fatal + 'os sys" where
  "rb_yjit_mark_executable k mem_block mem_size s =
     (if mem_size = 0 then Inr s
      else (case mprotect k mem_block (ucast mem_size) PROT_READ_EXEC s of
              (rc, s') \<Rightarrow>
                if rc \<noteq> 0 then Inl (Rb_bug ''Couldn't make JIT page executable'')
                else Inr s'))"

section \<open>yjit.c: exit locations\<close>

text \<open>
  Ruby values, as far as \<open>rb_yjit_exit_locations_dict\<close> builds them: integers, strings,
  symbols, arrays and hashes. A hash is the list of its entries in insertion order.
\<close>

datatype rvalue =
    RNil | RFalse | RTrue
  | RInt int
  | RStr string
  | RSym string
  | RAry "rvalue list"
  | RHash "(rvalue \<times> rvalue) list"

type_synonym rhash = "(rvalue \<times> rvalue) list"

definition RTEST :: "rvalue \<Rightarrow> bool" where
  "RTEST v = (v \<noteq> RNil \<and> v \<noteq> RFalse)"

text \<open>
  Modelled from the spec: \<open>rb_hash_aref\<close> and \<open>rb_hash_aset\<close> (hash.c) are outside the
  sources at hand. A lookup gives the value stored under the key, or nil; a store replaces
  the value of a key that is present and appends a new entry otherwise.
\<close>

definition rb_hash_aref :: "rhash \<Rightarrow> rvalue \<Rightarrow> rvalue" where
  "rb_hash_aref h k = (case map_of h k of None \<Rightarrow> RNil | Some v \<Rightarrow> v)"

fun rb_hash_aset :: "rhash \<Rightarrow> rvalue \<Rightarrow> rvalue \<Rightarrow> rhash" where
  "rb_hash_aset [] k v = [(k, v)]"
| "rb_hash_aset ((k', v') # h) k v =
     (if k' = k then (k', v) # h else (k', v') # rb_hash_aset h k v)"

text \<open>
  Conversions to Ruby integers: \<open>SIZET2NUM\<close> reads its argument as unsigned, \<open>INT2NUM\<close>
  and \<open>PTR2NUM\<close> (through \<open>intptr_t\<close>) as signed.
\<close>

definition SIZET2NUM :: "size_t \<Rightarrow> rvalue" where
  "SIZET2NUM v = RInt (uint v)"

definition INT2NUM :: "c_int \<Rightarrow> rvalue" where
  "INT2NUM v = RInt (sint v)"

definition PTR2NUM :: "VALUE \<Rightarrow> rvalue" where
  "PTR2NUM v = RInt (sint v)"

text \<open>
  The \<open>rb_profile_frame_*\<close> functions (vm\_backtrace.c) are outside the sources at hand;
  they are parameters. They read the state of the virtual machine, so what they answer for
  a frame may differ from one call to the next: they take the moment of the call, which is
  the number of entries of the sample arrays consumed so far.
\<close>

record frame_api =
  rb_profile_frame_full_label :: "nat \<Rightarrow> VALUE \<Rightarrow> rvalue"
  rb_profile_frame_absolute_path :: "nat \<Rightarrow> VALUE \<Rightarrow> rvalue"
  rb_profile_frame_path :: "nat \<Rightarrow> VALUE \<Rightarrow> rvalue"
  rb_profile_frame_first_lineno :: "nat \<Rightarrow> VALUE \<Rightarrow> rvalue"

text \<open>The \<open>else\<close> branch of \<open>rb_yjit_add_frame\<close> up to the store into \<open>hash\<close>.\<close>

definition new_frame_info :: "frame_api \<Rightarrow> nat \<Rightarrow> VALUE \<Rightarrow> rhash" where
  "new_frame_info A now frame =
     (let frame_info = [];
          name = rb_profile_frame_full_label A now frame;
          file = rb_profile_frame_absolute_path A now frame;
          line = rb_profile_frame_first_lineno A now frame;
          file = (if file = RNil then rb_profile_frame_path A now frame else file);
          frame_info = rb_hash_aset frame_info (RSym ''name'') name;
          frame_info = rb_hash_aset frame_info (RSym ''file'') file;
          frame_info = rb_hash_aset frame_info (RSym ''samples'') (INT2NUM 0);
          frame_info = rb_hash_aset frame_info (RSym ''total_samples'') (INT2NUM 0);
          frame_info = rb_hash_aset frame_info (RSym ''edges'') (RHash []);
          frame_info = rb_hash_aset frame_info (RSym ''lines'') (RHash [])
      in if line \<noteq> RInt 0 then rb_hash_aset frame_info (RSym ''line'') line else frame_info)"

definition rb_yjit_add_frame :: "frame_api \<Rightarrow> nat \<Rightarrow> rhash \<Rightarrow> VALUE \<Rightarrow> rhash" where
  "rb_yjit_add_frame A now hash frame =
     (let frame_id = PTR2NUM frame
      in if RTEST (rb_hash_aref hash frame_id) then hash
         else rb_hash_aset hash frame_id (RHash (new_frame_info A now frame)))"

text \<open>
  The local variables of \<open>rb_yjit_exit_locations_dict\<close> that its loops change. The two
  input arrays are lists; a read past the end of one is undefined behaviour in C and
  \<open>None\<close> here. \<open>idx\<close> is a natural number: it stays within the arrays, which a C \<open>int\<close>
  can index.
\<close>

record exit_locations =
  idx :: nat
  raw_samples :: "rvalue list"
  line_samples :: "rvalue list"
  frames :: rhash

text \<open>
  \<open>rb_ary_push(raw_samples, SIZET2NUM(yjit_raw_samples[idx]));
  rb_ary_push(line_samples, INT2NUM(yjit_line_samples[idx])); idx++;\<close>
\<close>

definition push_sample :: "VALUE list \<Rightarrow> c_int list \<Rightarrow> exit_locations \<Rightarrow> exit_locations option" where
  "push_sample yjit_raw_samples yjit_line_samples st =
     (case rd yjit_raw_samples (idx st) of
        None \<Rightarrow> None
      | Some r \<Rightarrow>
          (case rd yjit_line_samples (idx st) of
             None \<Rightarrow> None
           | Some l \<Rightarrow>
               Some (st\<lparr>raw_samples := raw_samples st @ [SIZET2NUM r],
                        line_samples := line_samples st @ [INT2NUM l],
                        idx := Suc (idx st)\<rparr>)))"

text \<open>The inner loop \<open>for (int o = 0; o < num; o++)\<close>, by the number of rounds left.\<close>

fun frames_loop ::
    "frame_api \<Rightarrow> VALUE list \<Rightarrow> c_int list \<Rightarrow> nat \<Rightarrow> exit_locations \<Rightarrow> exit_locations option" where
  "frames_loop A yjit_raw_samples yjit_line_samples 0 st = Some st"
| "frames_loop A yjit_raw_samples yjit_line_samples (Suc k) st =
     (case rd yjit_raw_samples (idx st) of
        None \<Rightarrow> None
      | Some frame \<Rightarrow>
          (case push_sample yjit_raw_samples yjit_line_samples
                  (st\<lparr>frames := rb_yjit_add_frame A (idx st) (frames st) frame\<rparr>) of
             None \<Rightarrow> None
           | Some st' \<Rightarrow> frames_loop A yjit_raw_samples yjit_line_samples k st'))"

text \<open>
  The body of the outer loop. \<open>(int)yjit_raw_samples[idx]\<close> keeps the low 32 bits;
  \<open>SIZET2NUM(num)\<close> converts the \<open>int\<close> back to \<open>size_t\<close> with sign extension. A negative
  \<open>num\<close> gives no round of the inner loop.
\<close>

definition sample_body ::
    "frame_api \<Rightarrow> VALUE list \<Rightarrow> c_int list \<Rightarrow> exit_locations \<Rightarrow> exit_locations option" where
  "sample_body A yjit_raw_samples yjit_line_samples st =
     (case rd yjit_raw_samples (idx st) of
        None \<Rightarrow> None
      | Some r \<Rightarrow>
          (case rd yjit_line_samples (idx st) of
             None \<Rightarrow> None
           | Some line_num \<Rightarrow>
               (let num = (ucast r :: c_int);
                    st1 = st\<lparr>idx := Suc (idx st),
                             raw_samples := raw_samples st @ [SIZET2NUM (scast num)],
                             line_samples := line_samples st @ [INT2NUM line_num]\<rparr>
                in case frames_loop A yjit_raw_samples yjit_line_samples (nat (sint num)) st1 of
                     None \<Rightarrow> None
                   | Some st2 \<Rightarrow>
                       (case push_sample yjit_raw_samples yjit_line_samples st2 of
                          None \<Rightarrow> None
                        | Some st3 \<Rightarrow> push_sample yjit_raw_samples yjit_line_samples st3))))"

text \<open>The outer loop \<open>while (idx < samples_len)\<close>; every round moves \<open>idx\<close> forward.\<close>

function samples_loop ::
    "frame_api \<Rightarrow> VALUE list \<Rightarrow> c_int list \<Rightarrow> c_int \<Rightarrow> exit_locations \<Rightarrow> exit_locations option" where
  "samples_loop A yjit_raw_samples yjit_line_samples samples_len st =
     (if int (idx st) < sint samples_len
      then (case sample_body A yjit_raw_samples yjit_line_samples st of
              None \<Rightarrow> None
            | Some st' \<Rightarrow> samples_loop A yjit_raw_samples yjit_line_samples samples_len st')
      else Some st)"
  by pat_completeness auto
termination
proof (relation "measure (\<lambda>(A, raw, lines, samples_len, st). nat (sint samples_len) - idx st)")
  show "wf (measure (\<lambda>(A, raw, lines, samples_len, st). nat (sint samples_len) - idx st))"
    by simp
next
  fix A :: frame_api and yjit_raw_samples :: "VALUE list" and yjit_line_samples :: "c_int list"
    and samples_len :: c_int and st st' :: exit_locations
  assume lt: "int (idx st) < sint samples_len"
    and body: "sample_body A yjit_raw_samples yjit_line_samples st = Some st'"
  have push: "idx b = Suc (idx a)"
    if "push_sample yjit_raw_samples yjit_line_samples a = Some b" for a b
    using that by (auto simp: push_sample_def split: option.splits)
  have inner: "idx b = idx a + k"
    if "frames_loop A yjit_raw_samples yjit_line_samples k a = Some b" for k a b
    using that by (induction k arbitrary: a) (auto split: option.splits dest!: push)
  from body have "idx st < idx st'"
    by (auto simp: sample_body_def Let_def split: option.splits dest!: push inner)
  with lt show "((A, yjit_raw_samples, yjit_line_samples, samples_len, st'),
                 (A, yjit_raw_samples, yjit_line_samples, samples_len, st))
          \<in> measure (\<lambda>(A, raw, lines, samples_len, st). nat (sint samples_len) - idx st)"
    by simp
qed

declare samples_loop.simps [simp del]

definition rb_yjit_exit_locations_dict ::
    "frame_api \<Rightarrow> VALUE list \<Rightarrow> c_int list \<Rightarrow> c_int \<Rightarrow> rvalue option" where
  "rb_yjit_exit_locations_dict A yjit_raw_samples yjit_line_samples samples_len =
     (case samples_loop A yjit_raw_samples yjit_line_samples samples_len
             \<lparr>idx = 0, raw_samples = [], line_samples = [], frames = []\<rparr> of
        None \<Rightarrow> None
      | Some st \<Rightarrow>
          (let result = [];
               result = rb_hash_aset result (RSym ''raw'') (RAry (raw_samples st));
               result = rb_hash_aset result (RSym ''lines'') (RAry (line_samples st));
               result = rb_hash_aset result (RSym ''frames'') (RHash (frames st))
           in Some (RHash result)))"

text \<open>
  The sample sequence the specification speaks of. A stack sample is the list of its
  frames and the two entries that follow them; in the raw array it is written as the number
  of frames, the frames, and the two entries. \<open>sampled_frames_at\<close> lists the frames of a
  sample sequence in order, each with its position in the raw array, and \<open>first_seen\<close> is
  the position of the first occurrence of a frame.
\<close>

type_synonym stack_sample = "VALUE list \<times> VALUE \<times> VALUE"

fun encode_samples :: "stack_sample list \<Rightarrow> VALUE list" where
  "encode_samples [] = []"
| "encode_samples ((fs, a, b) # ss) = of_nat (length fs) # fs @ [a, b] @ encode_samples ss"

fun sampled_frames_at :: "nat \<Rightarrow> stack_sample list \<Rightarrow> (VALUE \<times> nat) list" where
  "sampled_frames_at i [] = []"
| "sampled_frames_at i ((fs, a, b) # ss) =
     zip fs [Suc i..<Suc i + length fs] @ sampled_frames_at (i + length fs + 3) ss"

definition sampled_frames :: "stack_sample list \<Rightarrow> VALUE list" where
  "sampled_frames ss = concat (map fst ss)"

definition first_seen :: "stack_sample list \<Rightarrow> VALUE \<Rightarrow> nat option" where
  "first_seen ss f = map_of (sampled_frames_at 0 ss) f"

text \<open>
  The frames hash after the frames \<open>seen\<close> (each with the moment it was met): one entry
  for each frame, holding the record built when the frame was first met.
\<close>

definition frames_inv :: "frame_api \<Rightarrow> (VALUE \<times> nat) list \<Rightarrow> rhash \<Rightarrow> bool" where
  "frames_inv A seen h =
     (distinct (map fst h) \<and> set (map fst h) = PTR2NUM ` set (map fst seen) \<and>
      (\<forall>f t. map_of seen f = Some t \<longrightarrow>
             map_of h (PTR2NUM f) = Some (RHash (new_frame_info A t f))))"

text \<open>
  A frame interface for concrete runs: the label and the line it answers are the moment of
  the call, so that a record shows when it was built.
\<close>

definition sample_label :: "nat \<Rightarrow> VALUE \<Rightarrow> rvalue" where
  "sample_label now frame = RInt (int now)"

definition sample_no_path :: "nat \<Rightarrow> VALUE \<Rightarrow> rvalue" where
  "sample_no_path now frame = RNil"

definition sample_path :: "nat \<Rightarrow> VALUE \<Rightarrow> rvalue" where
  "sample_path now frame = RStr ''a.rb''"

definition sample_api :: frame_api where
  "sample_api =
     \<lparr>rb_profile_frame_full_label = sample_label,
      rb_profile_frame_absolute_path = sample_no_path,
      rb_profile_frame_path = sample_path,
      rb_profile_frame_first_lineno = sample_label\<rparr>"

section \<open>Theorems\<close>

subsection \<open>String sizing\<close>

text \<open>
  C8. The fixed minimum is the sum of the header size \<open>r\<close> and the size \<open>e\<close> of the
  extension field. The sizing function returns the requested size when it is at least
  \<open>r + e\<close>, and exactly \<open>r + e\<close> when the request is smaller; the result is never below
  \<open>r + e\<close> and a request at or above it is returned unchanged.
\<close>

theorem string_size_clamped:
  "rb_mmtk_str_heap_size r e = r + e \<and>
   (r + e \<le> sz \<longrightarrow> rb_mmtk_string_size_impl r e sz = sz) \<and>
   (sz < r + e \<longrightarrow> rb_mmtk_string_size_impl r e sz = r + e) \<and>
   r + e \<le> rb_mmtk_string_size_impl r e sz \<and>
   rb_mmtk_string_size_impl r e sz = max sz (r + e)"
  by (auto simp add: rb_mmtk_string_size_impl_def rb_mmtk_str_heap_size_def max_def)

theorem string_size_clamped_witness:
  "rb_mmtk_str_heap_size 40 8 = 48 \<and>
   rb_mmtk_string_size_impl 40 8 100 = 100 \<and> rb_mmtk_string_size_impl 40 8 48 = 48 \<and>
   rb_mmtk_string_size_impl 40 8 47 = 48 \<and> rb_mmtk_string_size_impl 40 8 0 = 48"
  using string_size_clamped [of 40 8 100] string_size_clamped [of 40 8 48]
    string_size_clamped [of 40 8 47] string_size_clamped [of 40 8 0]
  by simp

subsection \<open>Page protection\<close>

text \<open>
  C4. Marking a region of size zero executable returns normally, with the system state and
  the record of \<open>mprotect\<close> calls unchanged, whatever the block address and whatever the
  operating system would have answered.
\<close>

theorem mark_executable_zero_noop:
  "rb_yjit_mark_executable k mem_block 0 s = Inr s"
  by (simp add: rb_yjit_mark_executable_def)

text \<open>
  C5. Marking writable reports the outcome of the protection call as a boolean: false when
  the call fails, true when it succeeds. Marking a non-empty region executable aborts
  (\<open>rb_bug\<close>) when the call fails and otherwise returns no value, only the next state.
\<close>

theorem mark_writable_bool_mark_executable_fatal:
  "fst (rb_yjit_mark_writable k b n s) = (fst (k b (ucast n) PROT_READ_WRITE (kernel s)) = 0) \<and>
   (m \<noteq> 0 \<longrightarrow>
      (fst (k b (ucast m) PROT_READ_EXEC (kernel s)) \<noteq> 0 \<longrightarrow>
         (\<exists>msg. rb_yjit_mark_executable k b m s = Inl (Rb_bug msg))) \<and>
      (fst (k b (ucast m) PROT_READ_EXEC (kernel s)) = 0 \<longrightarrow>
         rb_yjit_mark_executable k b m s = Inr (snd (mprotect k b (ucast m) PROT_READ_EXEC s))))"
  by (simp add: rb_yjit_mark_writable_def rb_yjit_mark_executable_def mprotect_def
      split: prod.split)

theorem mark_writable_bool_mark_executable_fatal_witness:
  "fst (rb_yjit_mark_writable (\<lambda>a l p os. (if p = PROT_READ_WRITE then 0 else - 1, os)) 4096 4096
        \<lparr>kernel = (), mprotect_calls = []\<rparr>) = True \<and>
   fst (rb_yjit_mark_writable (\<lambda>a l p os. (- 1, os)) 4096 4096
        \<lparr>kernel = (), mprotect_calls = []\<rparr>) = False \<and>
   (\<exists>msg. rb_yjit_mark_executable (\<lambda>a l p os. (if p = PROT_READ_WRITE then 0 else - 1, os)) 4096 4096
        \<lparr>kernel = (), mprotect_calls = []\<rparr> = Inl (Rb_bug msg)) \<and>
   rb_yjit_mark_executable (\<lambda>a l p os. (0, os)) 4096 4096 \<lparr>kernel = (), mprotect_calls = []\<rparr>
     = Inr \<lparr>kernel = (), mprotect_calls = [(4096, 4096, PROT_READ_EXEC)]\<rparr>"
  using mark_writable_bool_mark_executable_fatal
          [of "\<lambda>a l p os. (if p = PROT_READ_WRITE then 0 else - 1, os)" 4096 4096
              "\<lparr>kernel = (), mprotect_calls = []\<rparr>" 4096]
        mark_writable_bool_mark_executable_fatal
          [of "\<lambda>a l p os. (- 1, os)" 4096 4096 "\<lparr>kernel = (), mprotect_calls = []\<rparr>" 4096]
        mark_writable_bool_mark_executable_fatal
          [of "\<lambda>a l p os. (0, os)" 4096 4096 "\<lparr>kernel = (), mprotect_calls = []\<rparr>" 4096]
  by (simp add: mprotect_def)

subsection \<open>String buffers\<close>

lemma those_length: "those xs = Some ys \<Longrightarrow> length ys = length xs"
  by (induction xs arbitrary: ys) (auto split: option.splits)

lemma read_bytes_length: "read_bytes h src n = Some xs \<Longrightarrow> length xs = n"
  by (cases src) (auto split: option.splits if_splits dest: those_length)

lemma read_bytes_after_alloc:
  assumes wf: "heap_wf h" and rd: "read_bytes h src n = Some xs"
  shows "read_bytes (snd (rb_mmtk_new_strbuf junk capa h)) src n = Some xs \<and>
         \<not> regions_overlap (Chars (next_obj h) 0) src n"
proof (cases src)
  case (Chars b off)
  with rd have "b \<in> dom (strbufs h)" by (auto split: option.splits)
  with wf have "b \<noteq> next_obj h" by (auto simp: heap_wf_def)
  with rd Chars show ?thesis by (simp add: rb_mmtk_new_strbuf_def)
qed (use rd in \<open>simp_all add: rb_mmtk_new_strbuf_def\<close>)

lemma new_strbuf_copy_result:
  assumes en: "mmtk_enabled h" and wf: "heap_wf h" and str: "strings h str = Some rs"
    and le: "copy_size \<le> capa"
    and rd: "read_bytes h src (unat copy_size) = Some xs"
  shows "\<exists>h'. rb_mmtk_str_new_strbuf_copy_impl junk str capa src_obj src copy_size h = Inr h' \<and>
     strbufs h' (next_obj h) = Some (xs @ drop (unat copy_size) (map junk [0..<unat capa])) \<and>
     (\<forall>b old. strbufs h b = Some old \<longrightarrow> strbufs h' b = Some old) \<and>
     strings h' str = Some (rs\<lparr>heap_ptr := Chars (next_obj h) 0, ext_strbuf := next_obj h\<rparr>) \<and>
     embed_ary h' str = None"
proof -
  from rd have nn: "src \<noteq> NULL" by auto
  from le have le': "unat copy_size \<le> unat capa"
    by (simp add: word_le_nat_alt)
  from read_bytes_length [OF rd] have len: "length xs = unat copy_size" .
  from read_bytes_after_alloc [OF wf rd, of junk capa]
  have rd1: "read_bytes (snd (rb_mmtk_new_strbuf junk capa h)) src (unat copy_size) = Some xs"
    and no: "\<not> regions_overlap (Chars (next_obj h) 0) src (unat copy_size)"
    by simp_all
  have old: "\<forall>b old. strbufs h b = Some old \<longrightarrow> b \<noteq> next_obj h"
    using wf by (auto simp: heap_wf_def)
  have cp: "memcpy (Chars (next_obj h) 0) src copy_size (snd (rb_mmtk_new_strbuf junk capa h)) =
         Inr ((snd (rb_mmtk_new_strbuf junk capa h))
               \<lparr>strbufs := (strbufs (snd (rb_mmtk_new_strbuf junk capa h)))
                  (next_obj h \<mapsto> xs @ drop (unat copy_size) (map junk [0..<unat capa]))\<rparr>)"
    using rd1 no len le' by (simp add: memcpy_def) (simp add: rb_mmtk_new_strbuf_def)
  show ?thesis
    using en str nn le cp old
    by (simp add: rb_mmtk_str_new_strbuf_copy_impl_def rb_mmtk_strbuf_to_chars_def
        set_heap_ptr_def rb_mmtk_str_set_strbuf_def store_to_owner_def
        rb_mmtk_new_strbuf_def)
qed

text \<open>
  C1. A call whose source is readable for \<open>copy_size\<close> bytes (so it is not null), with
  \<open>copy_size \<le> capa\<close>, returns normally, and the new buffer starts with the source bytes as
  they were before the call: the copy is made before the owner is written. This holds for
  every kind of source, also one inside the owner string itself, whose bytes the stores to
  the owner overlay (after the call they are not readable any more). Every buffer that
  existed keeps its bytes, the owner's content pointer and buffer slot name the new buffer,
  and any other source holding the same bytes gives the same new buffer.
\<close>

theorem attach_copies_source_bytes:
  assumes en: "mmtk_enabled h" and wf: "heap_wf h" and str: "strings h str = Some rs"
    and le: "copy_size \<le> capa"
    and rd: "read_bytes h src (unat copy_size) = Some xs"
  shows "\<exists>h'. rb_mmtk_str_new_strbuf_copy_impl junk str capa src_obj src copy_size h = Inr h' \<and>
     strbufs h' (next_obj h) = Some (xs @ drop (unat copy_size) (map junk [0..<unat capa])) \<and>
     (\<forall>b old. strbufs h b = Some old \<longrightarrow> strbufs h' b = Some old) \<and>
     strings h' str = Some (rs\<lparr>heap_ptr := Chars (next_obj h) 0, ext_strbuf := next_obj h\<rparr>) \<and>
     embed_ary h' str = None \<and>
     (\<forall>src_obj2 src2.
        read_bytes h src2 (unat copy_size) = Some xs \<longrightarrow>
        (\<exists>h''. rb_mmtk_str_new_strbuf_copy_impl junk str capa src_obj2 src2 copy_size h = Inr h'' \<and>
               strbufs h'' (next_obj h) = strbufs h' (next_obj h)))"
proof -
  from new_strbuf_copy_result [OF en wf str le rd, of junk src_obj]
  obtain h' where h': "rb_mmtk_str_new_strbuf_copy_impl junk str capa src_obj src copy_size h = Inr h'"
    and new: "strbufs h' (next_obj h) = Some (xs @ drop (unat copy_size) (map junk [0..<unat capa]))"
    and old: "\<forall>b old. strbufs h b = Some old \<longrightarrow> strbufs h' b = Some old"
    and own: "strings h' str = Some (rs\<lparr>heap_ptr := Chars (next_obj h) 0, ext_strbuf := next_obj h\<rparr>)"
    and emb: "embed_ary h' str = None"
    by blast
  have other: "\<exists>h''. rb_mmtk_str_new_strbuf_copy_impl junk str capa src_obj2 src2 copy_size h = Inr h'' \<and>
                 strbufs h'' (next_obj h) = strbufs h' (next_obj h)"
    if "read_bytes h src2 (unat copy_size) = Some xs" for src_obj2 src2
    using new_strbuf_copy_result [OF en wf str le that, of junk src_obj2] new
    by auto
  from h' new old own emb other show ?thesis by blast
qed

theorem attach_copies_source_bytes_witness:
  "\<exists>h'. rb_mmtk_str_new_strbuf_copy_impl (\<lambda>_. 0) 1 6 1 (Embed 1 1) 3
          \<lparr>mmtk_enabled = True,
           strings = [1 \<mapsto> \<lparr>embed = True, heap_ptr = NULL, heap_capa = 0, ext_strbuf = 0\<rparr>],
           strbufs = [4 \<mapsto> [11, 12, 13]],
           next_obj = 5,
           embed_ary = [1 \<mapsto> [10, 11, 12, 13]],
           c_mem = Map.empty\<rparr> = Inr h' \<and>
        strbufs h' 5 = Some [11, 12, 13, 0, 0, 0] \<and>
        strings h' 1 = Some \<lparr>embed = True, heap_ptr = Chars 5 0, heap_capa = 0, ext_strbuf = 5\<rparr> \<and>
        embed_ary h' 1 = None \<and>
        (\<exists>h''. rb_mmtk_str_new_strbuf_copy_impl (\<lambda>_. 0) 1 6 4 (Chars 4 0) 3
          \<lparr>mmtk_enabled = True,
           strings = [1 \<mapsto> \<lparr>embed = True, heap_ptr = NULL, heap_capa = 0, ext_strbuf = 0\<rparr>],
           strbufs = [4 \<mapsto> [11, 12, 13]],
           next_obj = 5,
           embed_ary = [1 \<mapsto> [10, 11, 12, 13]],
           c_mem = Map.empty\<rparr> = Inr h'' \<and> strbufs h'' 5 = strbufs h' 5)"
proof -
  let ?h = "\<lparr>mmtk_enabled = True,
           strings = [1 \<mapsto> \<lparr>embed = True, heap_ptr = NULL, heap_capa = 0, ext_strbuf = 0\<rparr>],
           strbufs = [4 \<mapsto> [11, 12, 13]],
           next_obj = 5,
           embed_ary = [1 \<mapsto> [10, 11, 12, 13]],
           c_mem = Map.empty\<rparr>"
  have wf: "heap_wf ?h" by (simp add: heap_wf_def)
  have upt: "[0..<6] = [0, 1, 2, 3, 4, 5::nat]" by (simp add: upt_rec)
  have rd: "read_bytes ?h (Embed 1 1) (unat (3 :: size_t)) = Some [11, 12, 13]" by simp
  have rd2: "read_bytes ?h (Chars 4 0) (unat (3 :: size_t)) = Some [11, 12, 13]" by simp
  from attach_copies_source_bytes [of ?h 1
      "\<lparr>embed = True, heap_ptr = NULL, heap_capa = 0, ext_strbuf = 0\<rparr>"
      3 6 "Embed 1 1" "[11, 12, 13]" "\<lambda>_. 0" 1, OF _ wf _ _ rd]
  obtain h' where h': "rb_mmtk_str_new_strbuf_copy_impl (\<lambda>_. 0) 1 6 1 (Embed 1 1) 3 ?h = Inr h'"
    and 1: "strbufs h' 5 = Some [11, 12, 13, 0, 0, 0]"
    and 3: "strings h' 1 = Some \<lparr>embed = True, heap_ptr = Chars 5 0, heap_capa = 0, ext_strbuf = 5\<rparr>"
    and 5: "embed_ary h' 1 = None"
    and 4: "\<And>src_obj2 src2.
        read_bytes ?h src2 (unat (3 :: size_t)) = Some [11, 12, 13] \<Longrightarrow>
        (\<exists>h''. rb_mmtk_str_new_strbuf_copy_impl (\<lambda>_. 0) 1 6 src_obj2 src2 3 ?h = Inr h'' \<and>
               strbufs h'' 5 = strbufs h' 5)"
    by (auto simp: upt)
  from 4 [OF rd2, of 4] have
    "\<exists>h''. rb_mmtk_str_new_strbuf_copy_impl (\<lambda>_. 0) 1 6 4 (Chars 4 0) 3 ?h = Inr h'' \<and>
            strbufs h'' 5 = strbufs h' 5" .
  with h' 1 3 5 show ?thesis by blast
qed

text \<open>
  The order of the copy and the stores shows in the model: once a field of the owner has
  been stored to, a copy from inside the owner is an invalid access.
\<close>

lemma copy_from_owner_after_store_fails:
  "store_to_owner str upd h = Inr h1 \<Longrightarrow> memcpy dst (Embed str off) n h1 = Inl Invalid_access"
  by (auto simp: store_to_owner_def memcpy_def split: option.splits)

text \<open>
  C3. Reallocating a heap string whose content pointer addresses \<open>old_size\<close> readable bytes
  returns normally for every \<open>new_size\<close>, also a smaller one: the new buffer has
  \<open>new_size\<close> bytes, its first \<open>min old_size new_size\<close> bytes are those of the old buffer and
  the others are as the allocator left them; the owner's recorded capacity is \<open>new_size\<close>.
\<close>

theorem sized_realloc_copies_min:
  assumes en: "mmtk_enabled h" and wf: "heap_wf h" and str: "strings h str = Some rs"
    and ne: "\<not> embed rs" and ptr: "heap_ptr rs = Chars b off"
    and src: "strbufs h b = Some bs"
    and rng: "off + unat old_size \<le> length bs"
  shows "\<exists>h' nb. rb_mmtk_str_sized_realloc_n_impl junk str new_size old_size h = Inr h' \<and>
     strbufs h' (next_obj h) = Some nb \<and>
     nb = take (min (unat old_size) (unat new_size)) (drop off bs) @
          drop (min (unat old_size) (unat new_size)) (map junk [0..<unat new_size]) \<and>
     length nb = unat new_size \<and>
     strings h' str = Some (rs\<lparr>heap_ptr := Chars (next_obj h) 0, ext_strbuf := next_obj h,
                               heap_capa := new_size\<rparr>)"
proof -
  define c where "c = (if old_size < new_size then old_size else new_size)"
  have c1: "c \<le> new_size" by (auto simp: c_def)
  have c2: "unat c = min (unat old_size) (unat new_size)"
    by (auto simp: c_def word_less_nat_alt min_def)
  have c3: "off + unat c \<le> length bs" using rng c2 by simp
  have rd: "read_bytes h (Chars b off) (unat c) = Some (take (unat c) (drop off bs))"
    using src c3 by simp
  from new_strbuf_copy_result [OF en wf str c1 rd, of junk "ext_strbuf rs"]
  obtain h1 where h1: "rb_mmtk_str_new_strbuf_copy_impl junk str new_size (ext_strbuf rs) (Chars b off) c h = Inr h1"
    and b1: "strbufs h1 (next_obj h) =
       Some (take (unat c) (drop off bs) @ drop (unat c) (map junk [0..<unat new_size]))"
    and s1: "strings h1 str = Some (rs\<lparr>heap_ptr := Chars (next_obj h) 0, ext_strbuf := next_obj h\<rparr>)"
    by blast
  have len: "length (take (unat c) (drop off bs) @ drop (unat c) (map junk [0..<unat new_size]))
             = unat new_size"
    using c3 c2 by simp
  show ?thesis
    using en str ne ptr h1 b1 s1 c2 len
    by (simp add: rb_mmtk_str_sized_realloc_n_impl_def c_def [symmetric] set_heap_capa_def
        store_to_owner_def)
qed

theorem sized_realloc_copies_min_witness:
  "\<exists>h'. rb_mmtk_str_sized_realloc_n_impl (\<lambda>_. 255) 1 8 16
          \<lparr>mmtk_enabled = True,
           strings = [1 \<mapsto> \<lparr>embed = False, heap_ptr = Chars 2 0, heap_capa = 16, ext_strbuf = 2\<rparr>],
           strbufs = [2 \<mapsto> [1, 2, 3, 4, 5, 6, 7, 8, 9, 10, 0, 0, 0, 0, 0, 0]],
           next_obj = 3, embed_ary = Map.empty, c_mem = Map.empty\<rparr> = Inr h' \<and>
        strbufs h' 3 = Some [1, 2, 3, 4, 5, 6, 7, 8] \<and>
        strings h' 1 = Some \<lparr>embed = False, heap_ptr = Chars 3 0, heap_capa = 8, ext_strbuf = 3\<rparr>"
proof -
  let ?h = "\<lparr>mmtk_enabled = True,
           strings = [1 \<mapsto> \<lparr>embed = False, heap_ptr = Chars 2 0, heap_capa = 16, ext_strbuf = 2\<rparr>],
           strbufs = [2 \<mapsto> [1, 2, 3, 4, 5, 6, 7, 8, 9, 10, 0, 0, 0, 0, 0, 0 :: byte]],
           next_obj = 3, embed_ary = Map.empty, c_mem = Map.empty\<rparr>"
  have wf: "heap_wf ?h" by (simp add: heap_wf_def)
  from sized_realloc_copies_min [of ?h 1
      "\<lparr>embed = False, heap_ptr = Chars 2 0, heap_capa = 16, ext_strbuf = 2\<rparr>"
      2 0 "[1, 2, 3, 4, 5, 6, 7, 8, 9, 10, 0, 0, 0, 0, 0, 0]" 16 "\<lambda>_. 255" 8, OF _ wf]
  show ?thesis by auto
qed

subsection \<open>Compilation entry point\<close>

text \<open>
  C2. Provided the code generator leaves the gate as it found it: when the generator returns
  a non-null pointer, that pointer is installed as the compiled entry and the result is true;
  when it returns null, the compiled entry is null and the result is false; the gate is held
  (one level up) while the generator runs and is back at its entry level on return.
\<close>


theorem compile_installs_and_releases:
  assumes gen_gate: "\<And>t. lock_rec (snd (gen iseq ec t)) = lock_rec t"
  shows "(fst (gen iseq ec (rb_vm_barrier (RB_VM_LOCK_ENTER s))) \<noteq> 0 \<longrightarrow>
            fst (rb_yjit_compile_iseq gen iseq ec s) = True \<and>
            jit_func (body_of (snd (rb_yjit_compile_iseq gen iseq ec s)) iseq) =
              fst (gen iseq ec (rb_vm_barrier (RB_VM_LOCK_ENTER s)))) \<and>
         (fst (gen iseq ec (rb_vm_barrier (RB_VM_LOCK_ENTER s))) = 0 \<longrightarrow>
            fst (rb_yjit_compile_iseq gen iseq ec s) = False \<and>
            jit_func (body_of (snd (rb_yjit_compile_iseq gen iseq ec s)) iseq) = 0) \<and>
         lock_rec (rb_vm_barrier (RB_VM_LOCK_ENTER s)) = Suc (lock_rec s) \<and>
         lock_rec (snd (rb_yjit_compile_iseq gen iseq ec s)) = lock_rec s"
proof -
  obtain p s3 where g: "gen iseq ec (rb_vm_barrier (RB_VM_LOCK_ENTER s)) = (p, s3)"
    by (cases "gen iseq ec (rb_vm_barrier (RB_VM_LOCK_ENTER s))")
  from gen_gate [of "rb_vm_barrier (RB_VM_LOCK_ENTER s)"] g
  have l3: "lock_rec s3 = Suc (lock_rec s)"
    by (simp add: rb_vm_barrier_def RB_VM_LOCK_ENTER_def)
  show ?thesis
    using g l3
    by (simp add: rb_yjit_compile_iseq_def Let_def set_jit_func_def RB_VM_LOCK_LEAVE_def
        rb_vm_barrier_def RB_VM_LOCK_ENTER_def)
qed

theorem compile_installs_and_releases_witness:
  "fst (rb_yjit_compile_iseq (\<lambda>i e t. (4096, t)) 16 32
          \<lparr>lock_rec = 0, barriers = 0,
           body_of = (\<lambda>_. \<lparr>iseq_size = 0, iseq_encoded = [], builtin_inline_p = False, jit_func = 7\<rparr>)\<rparr>)
     = True \<and>
   jit_func (body_of (snd (rb_yjit_compile_iseq (\<lambda>i e t. (4096, t)) 16 32
          \<lparr>lock_rec = 0, barriers = 0,
           body_of = (\<lambda>_. \<lparr>iseq_size = 0, iseq_encoded = [], builtin_inline_p = False, jit_func = 7\<rparr>)\<rparr>)) 16)
     = 4096 \<and>
   lock_rec (snd (rb_yjit_compile_iseq (\<lambda>i e t. (4096, t)) 16 32
          \<lparr>lock_rec = 0, barriers = 0,
           body_of = (\<lambda>_. \<lparr>iseq_size = 0, iseq_encoded = [], builtin_inline_p = False, jit_func = 7\<rparr>)\<rparr>))
     = 0 \<and>
   fst (rb_yjit_compile_iseq (\<lambda>i e t. (0, t)) 16 32
          \<lparr>lock_rec = 0, barriers = 0,
           body_of = (\<lambda>_. \<lparr>iseq_size = 0, iseq_encoded = [], builtin_inline_p = False, jit_func = 7\<rparr>)\<rparr>)
     = False \<and>
   jit_func (body_of (snd (rb_yjit_compile_iseq (\<lambda>i e t. (0, t)) 16 32
          \<lparr>lock_rec = 0, barriers = 0,
           body_of = (\<lambda>_. \<lparr>iseq_size = 0, iseq_encoded = [], builtin_inline_p = False, jit_func = 7\<rparr>)\<rparr>)) 16)
     = 0 \<and>
   lock_rec (snd (rb_yjit_compile_iseq (\<lambda>i e t. (0, t)) 16 32
          \<lparr>lock_rec = 0, barriers = 0,
           body_of = (\<lambda>_. \<lparr>iseq_size = 0, iseq_encoded = [], builtin_inline_p = False, jit_func = 7\<rparr>)\<rparr>))
     = 0"
  using compile_installs_and_releases [of "\<lambda>i e t. (4096, t)" 16 32
          "\<lparr>lock_rec = 0, barriers = 0,
           body_of = (\<lambda>_. \<lparr>iseq_size = 0, iseq_encoded = [], builtin_inline_p = False, jit_func = 7\<rparr>)\<rparr>"]
        compile_installs_and_releases [of "\<lambda>i e t. (0, t)" 16 32
          "\<lparr>lock_rec = 0, barriers = 0,
           body_of = (\<lambda>_. \<lparr>iseq_size = 0, iseq_encoded = [], builtin_inline_p = False, jit_func = 7\<rparr>)\<rparr>"]
  by simp

subsection \<open>Leaf builtin detection\<close>

text \<open>
  C7, as the specification states it, fails: a code unit of exactly the described shape whose
  \<open>builtin_inline_p\<close> flag is unset is not detected.
\<close>

theorem leaf_counterexample:
  "leaf_builtin_shape sample_insns
     \<lparr>iseq_size = 4, iseq_encoded = [1, 4660, 0, 2], builtin_inline_p = False, jit_func = 0\<rparr> \<and>
   rb_leaf_invokebuiltin_iseq_p sample_insns
     \<lparr>iseq_size = 4, iseq_encoded = [1, 4660, 0, 2], builtin_inline_p = False, jit_func = 0\<rparr>
     = Some False"
  by (simp add: leaf_builtin_shape_def rb_leaf_invokebuiltin_iseq_p_def sample_insns_def
      sample_insn_len_def rd_def)

text \<open>
  C7, amended. Detection succeeds if and only if the code unit has the described shape and
  its \<open>builtin_inline_p\<close> flag is set. \<open>rb_leaf_builtin_function\<close> returns the word at index 1
  of the encoded sequence (the first operand of the dispatch instruction) when detection
  succeeds and null when it fails.
\<close>

theorem leaf_iff_shape_and_inline:
  assumes op: "insn_len I (BIN_opt_invokebuiltin_delegate_leave I) \<noteq> 0"
  shows "(rb_leaf_invokebuiltin_iseq_p I body = Some True \<longleftrightarrow>
            leaf_builtin_shape I body \<and> builtin_inline_p body) \<and>
         (rb_leaf_invokebuiltin_iseq_p I body = Some True \<longrightarrow>
            rb_leaf_builtin_function I body = Some (iseq_encoded body ! 1) \<and>
            1 < length (iseq_encoded body)) \<and>
         (rb_leaf_invokebuiltin_iseq_p I body = Some False \<longrightarrow>
            rb_leaf_builtin_function I body = Some 0)"
proof -
  have iff: "rb_leaf_invokebuiltin_iseq_p I body = Some True \<longleftrightarrow>
            leaf_builtin_shape I body \<and> builtin_inline_p body"
    by (auto simp: rb_leaf_invokebuiltin_iseq_p_def leaf_builtin_shape_def Let_def
        split: option.splits if_splits)
  have len: "1 < length (iseq_encoded body)" if "rb_leaf_invokebuiltin_iseq_p I body = Some True"
  proof -
    from that iff have "leaf_builtin_shape I body" by simp
    then have "unat (insn_len I (BIN_opt_invokebuiltin_delegate_leave I)) < length (iseq_encoded body)"
      by (auto simp: leaf_builtin_shape_def rd_def split: if_splits)
    moreover from op have "0 < unat (insn_len I (BIN_opt_invokebuiltin_delegate_leave I))"
      by (simp add: unat_gt_0)
    ultimately show ?thesis by simp
  qed
  show ?thesis
    using iff len by (auto simp: rb_leaf_builtin_function_def rd_def)
qed

theorem leaf_iff_shape_and_inline_witness:
  "rb_leaf_invokebuiltin_iseq_p sample_insns
     \<lparr>iseq_size = 4, iseq_encoded = [1, 4660, 0, 2], builtin_inline_p = True, jit_func = 0\<rparr>
     = Some True \<and>
   rb_leaf_builtin_function sample_insns
     \<lparr>iseq_size = 4, iseq_encoded = [1, 4660, 0, 2], builtin_inline_p = True, jit_func = 0\<rparr>
     = Some 4660 \<and>
   rb_leaf_builtin_function sample_insns
     \<lparr>iseq_size = 4, iseq_encoded = [1, 4660, 0, 2], builtin_inline_p = False, jit_func = 0\<rparr>
     = Some 0"
proof -
  have op: "insn_len sample_insns (BIN_opt_invokebuiltin_delegate_leave sample_insns) \<noteq> 0"
    by (simp add: sample_insns_def sample_insn_len_def)
  have sh: "leaf_builtin_shape sample_insns
     \<lparr>iseq_size = 4, iseq_encoded = [1, 4660, 0, 2], builtin_inline_p = b, jit_func = 0\<rparr>" for b
    by (simp add: leaf_builtin_shape_def sample_insns_def sample_insn_len_def rd_def)
  have f: "rb_leaf_invokebuiltin_iseq_p sample_insns
     \<lparr>iseq_size = 4, iseq_encoded = [1, 4660, 0, 2], builtin_inline_p = False, jit_func = 0\<rparr>
     = Some False"
    by (simp add: rb_leaf_invokebuiltin_iseq_p_def sample_insns_def sample_insn_len_def rd_def)
  from leaf_iff_shape_and_inline [OF op,
      of "\<lparr>iseq_size = 4, iseq_encoded = [1, 4660, 0, 2], builtin_inline_p = True, jit_func = 0\<rparr>"]
    leaf_iff_shape_and_inline [OF op,
      of "\<lparr>iseq_size = 4, iseq_encoded = [1, 4660, 0, 2], builtin_inline_p = False, jit_func = 0\<rparr>"]
    sh [of True] f
  show ?thesis by simp
qed

subsection \<open>Heap walk\<close>

lemma body_is_visit:
  assumes cbp: "\<forall>v s. poisoned (callback v s) = poisoned s"
  shows "for_each_iseq_body callback v s =
           (if v \<in> iseq_objs s then visit_code_unit callback s v else s)"
proof (cases "v \<in> iseq_objs s")
  case True
  have "insert v (poisoned s - {v}) = poisoned s" if "v \<in> poisoned s"
    using that by auto
  moreover have "poisoned s - {v} = poisoned s" if "v \<notin> poisoned s"
    using that by auto
  ultimately show ?thesis
    using True cbp
    by (cases "v \<in> poisoned s")
       (simp_all add: for_each_iseq_body_def Let_def asan_poisoned_object_p_def
          asan_unpoison_object_def asan_poison_object_if_def rb_obj_is_iseq_def
          visit_code_unit_def)
next
  case False
  have "insert v (poisoned s - {v}) = poisoned s" if "v \<in> poisoned s"
    using that by auto
  moreover have "poisoned s - {v} = poisoned s" if "v \<notin> poisoned s"
    using that by auto
  ultimately show ?thesis
    using False
    by (cases "v \<in> poisoned s")
       (simp_all add: for_each_iseq_body_def Let_def asan_poisoned_object_p_def
          asan_unpoison_object_def asan_poison_object_if_def rb_obj_is_iseq_def)
qed

lemma visit_keeps_marks:
  "poisoned (visit_code_unit callback s v) = poisoned s"
  by (simp add: visit_code_unit_def)

lemma visit_keeps_kinds:
  "\<forall>v s. iseq_objs (callback v s) = iseq_objs s \<Longrightarrow>
   iseq_objs (visit_code_unit callback s v) = iseq_objs s"
  by (simp add: visit_code_unit_def)

lemma visits_keep_marks:
  "poisoned (foldl (visit_code_unit callback) s vs) = poisoned s"
  by (induction vs arbitrary: s) (simp_all add: visit_keeps_marks)

lemma page_slots_Suc:
  "page_slots vstart stride (Suc n) = vstart # page_slots (vstart + stride) stride n"
proof -
  have "[0..<Suc n] = 0 # map Suc [0..<n]"
    by (simp add: upt_conv_Cons map_Suc_upt del: upt_Suc)
  then show ?thesis
    by (simp add: page_slots_def comp_def algebra_simps del: upt_Suc)
qed

lemma loop_result:
  assumes cbp: "\<forall>v s. poisoned (callback v s) = poisoned s"
    and cbi: "\<forall>v s. iseq_objs (callback v s) = iseq_objs s"
  shows "vend = vstart + of_nat n * stride \<Longrightarrow>
     \<forall>k<n. vstart + of_nat k * stride \<noteq> vend \<Longrightarrow>
     for_each_iseq_i callback vstart vend stride s =
       Some (0, foldl (visit_code_unit callback) s
                  (filter (\<lambda>v. v \<in> iseq_objs s) (page_slots vstart stride n)))"
proof (induction n arbitrary: vstart s)
  case 0
  then show ?case
    by (subst for_each_iseq_i.simps) (simp add: page_slots_def)
next
  case (Suc n)
  from Suc.prems(2) have ne: "vstart \<noteq> vend" by force
  define s1 where "s1 = for_each_iseq_body callback vstart s"
  have b: "s1 = (if vstart \<in> iseq_objs s then visit_code_unit callback s vstart else s)"
    unfolding s1_def by (rule body_is_visit [OF cbp])
  have i1: "iseq_objs s1 = iseq_objs s"
    using b visit_keeps_kinds [OF cbi] by simp
  have e: "vend = (vstart + stride) + of_nat n * stride"
    using Suc.prems(1) by (simp add: algebra_simps)
  have f: "\<forall>k<n. (vstart + stride) + of_nat k * stride \<noteq> vend"
  proof (intro allI impI)
    fix k assume "k < n"
    then have "vstart + of_nat (Suc k) * stride \<noteq> vend" using Suc.prems(2) by blast
    then show "(vstart + stride) + of_nat k * stride \<noteq> vend" by (simp add: algebra_simps)
  qed
  have "for_each_iseq_i callback vstart vend stride s =
          for_each_iseq_i callback (vstart + stride) vend stride s1"
    using ne by (subst for_each_iseq_i.simps) (simp add: s1_def)
  also have "\<dots> = Some (0, foldl (visit_code_unit callback) s1
                  (filter (\<lambda>v. v \<in> iseq_objs s1) (page_slots (vstart + stride) stride n)))"
    by (rule Suc.IH [OF e f])
  finally show ?case
    using b i1 by (simp add: page_slots_Suc)
qed

lemma slots_distinct:
  fixes vstart stride :: "64 word"
  assumes first: "\<forall>k<n. vstart + of_nat k * stride \<noteq> vstart + of_nat n * stride"
  shows "distinct (page_slots vstart stride n)"
proof -
  have "inj_on (\<lambda>k. vstart + of_nat k * stride) {0..<n}"
  proof (rule inj_onI)
    fix i j assume i: "i \<in> {0..<n}" and j: "j \<in> {0..<n}"
      and eq: "vstart + of_nat i * stride = vstart + of_nat j * stride"
    have aux: False if lt: "a < b" and b: "b < n"
      and e: "vstart + of_nat a * stride = vstart + of_nat b * stride" for a b
    proof -
      from e have z: "of_nat (b - a) * stride = 0"
        using lt by (simp add: of_nat_diff algebra_simps)
      have "vstart + of_nat (n - (b - a)) * stride = vstart + of_nat n * stride - of_nat (b - a) * stride"
        using lt b by (simp add: of_nat_diff algebra_simps)
      with z have "vstart + of_nat (n - (b - a)) * stride = vstart + of_nat n * stride" by simp
      moreover have "n - (b - a) < n" using lt b by simp
      ultimately show False using first by blast
    qed
    show "i = j"
    proof (rule ccontr)
      assume "i \<noteq> j"
      then consider "i < j" | "j < i" by linarith
      then show False
        using aux [of i j] aux [of j i] i j eq by cases auto
    qed
  qed
  then show ?thesis
    by (simp add: page_slots_def distinct_map)
qed

text \<open>
  C6. For a callback that leaves the poison marks and the object kinds alone. The visit of
  one object that is a code unit is one invocation of the callback on it, with the object
  unpoisoned and the poison marks afterwards as before; the visit of any other object
  changes nothing. Over a page of \<open>n\<close> slots the walk returns 0 in the state reached by
  invoking the callback once on each slot that is a code unit, in address order, and on
  nothing else; the slots are pairwise distinct and the poison marks are as before.
\<close>

theorem heap_walk_restores_poison_and_calls_once:
  assumes cbp: "\<forall>v s. poisoned (callback v s) = poisoned s"
    and cbi: "\<forall>v s. iseq_objs (callback v s) = iseq_objs s"
    and e: "vend = vstart + of_nat n * stride"
    and first: "\<forall>k<n. vstart + of_nat k * stride \<noteq> vend"
  shows "(\<forall>v. for_each_iseq_body callback v s =
               (if v \<in> iseq_objs s then visit_code_unit callback s v else s)) \<and>
         (\<forall>v. poisoned (for_each_iseq_body callback v s) = poisoned s) \<and>
         for_each_iseq_i callback vstart vend stride s =
           Some (0, foldl (visit_code_unit callback) s
                      (filter (\<lambda>v. v \<in> iseq_objs s) (page_slots vstart stride n))) \<and>
         poisoned (foldl (visit_code_unit callback) s
                      (filter (\<lambda>v. v \<in> iseq_objs s) (page_slots vstart stride n))) = poisoned s \<and>
         distinct (page_slots vstart stride n)"
proof -
  have b: "for_each_iseq_body callback v s =
               (if v \<in> iseq_objs s then visit_code_unit callback s v else s)" for v
    by (rule body_is_visit [OF cbp])
  have p: "poisoned (for_each_iseq_body callback v s) = poisoned s" for v
    by (simp add: b visit_keeps_marks)
  have d: "distinct (page_slots vstart stride n)"
    using first unfolding e by (rule slots_distinct)
  from b p d loop_result [OF cbp cbi e first] visits_keep_marks show ?thesis
    by blast
qed

theorem heap_walk_restores_poison_and_calls_once_witness:
  "for_each_iseq_i log_callback 64 104 8
          \<lparr>poisoned = {72, 80}, iseq_objs = {72, 96, 200}, other = []\<rparr> =
     Some (0, \<lparr>poisoned = {72, 80}, iseq_objs = {72, 96, 200}, other = [72, 96]\<rparr>)"
proof -
  have e: "(104 :: 64 word) = 64 + of_nat 5 * 8" by simp
  have f: "\<forall>k<5. (64 :: 64 word) + of_nat k * 8 \<noteq> 104"
  proof (intro allI impI)
    fix k :: nat assume "k < 5"
    then consider "k = 0" | "k = 1" | "k = 2" | "k = 3" | "k = 4" by linarith
    then show "(64 :: 64 word) + of_nat k * 8 \<noteq> 104" by cases simp_all
  qed
  have sl: "page_slots 64 8 5 = [64, 72, 80, 88, 96]"
    by (simp add: page_slots_def upt_rec)
  have cbp: "\<forall>v s. poisoned (log_callback v s) = poisoned s"
    by (simp add: log_callback_def)
  have cbi: "\<forall>v s. iseq_objs (log_callback v s) = iseq_objs s"
    by (simp add: log_callback_def)
  let ?s = "\<lparr>poisoned = {72, 80}, iseq_objs = {72, 96, 200}, other = []\<rparr> :: VALUE list objspace"
  from heap_walk_restores_poison_and_calls_once [OF cbp cbi e f, of ?s]
  have "for_each_iseq_i log_callback 64 104 8 ?s =
          Some (0, foldl (visit_code_unit log_callback) ?s
                     (filter (\<lambda>v. v \<in> iseq_objs ?s) (page_slots 64 8 5)))"
    by blast
  moreover have "foldl (visit_code_unit log_callback) ?s
                     (filter (\<lambda>v. v \<in> iseq_objs ?s) (page_slots 64 8 5)) =
                 \<lparr>poisoned = {72, 80}, iseq_objs = {72, 96, 200}, other = [72, 96]\<rparr>"
    by (simp add: sl visit_code_unit_def log_callback_def)
  ultimately show ?thesis by simp
qed

subsection \<open>Exit locations\<close>

lemma ucast_of_nat_down: "(ucast (of_nat n :: 64 word) :: 32 word) = of_nat n"
  by (simp add: unsigned_of_nat word_of_nat_eq_iff min_def)

lemma sint_of_nat_small: "n < 2 ^ 31 \<Longrightarrow> sint (of_nat n :: 32 word) = int n"
  by (simp add: signed_of_nat signed_take_bit_int_eq_self)

lemma scast_of_nat_small: "n < 2 ^ 31 \<Longrightarrow> (scast (of_nat n :: 32 word) :: 64 word) = of_nat n"
  by (simp add: signed_of_nat signed_take_bit_int_eq_self)

lemma PTR2NUM_eq_iff [simp]: "PTR2NUM a = PTR2NUM b \<longleftrightarrow> a = b"
  by (auto simp: PTR2NUM_def intro: signed_word_eqI)

lemma rd_append_at [simp]: "rd (pre @ x # post) (length pre) = Some x"
  by (simp add: rd_def)

lemma rd_in_range: "i < length xs \<Longrightarrow> rd xs i = Some (xs ! i)"
  by (simp add: rd_def)

lemma take_Suc_drop: "i < length xs \<Longrightarrow> take (Suc n) (drop i xs) = xs ! i # take n (drop (Suc i) xs)"
  by (simp add: Cons_nth_drop_Suc [symmetric])

text \<open>The two output arrays grow together.\<close>

lemma push_sample_len:
  "push_sample raw lines st = Some st' \<Longrightarrow>
   length (raw_samples st) = length (line_samples st) \<Longrightarrow>
   length (raw_samples st') = length (line_samples st')"
  by (auto simp: push_sample_def split: option.splits)

lemma frames_loop_len:
  "frames_loop A raw lines k st = Some st' \<Longrightarrow>
   length (raw_samples st) = length (line_samples st) \<Longrightarrow>
   length (raw_samples st') = length (line_samples st')"
proof (induction k arbitrary: st)
  case 0
  then show ?case by simp
next
  case (Suc k)
  from Suc.prems(1) obtain frame st1 where
    p: "push_sample raw lines (st\<lparr>frames := rb_yjit_add_frame A (idx st) (frames st) frame\<rparr>) = Some st1"
    and r: "frames_loop A raw lines k st1 = Some st'"
    by (auto split: option.splits)
  from push_sample_len [OF p] Suc.prems(2)
  have "length (raw_samples st1) = length (line_samples st1)" by simp
  with Suc.IH [OF r] show ?case .
qed

lemma sample_body_len:
  assumes b: "sample_body A raw lines st = Some st'"
    and eq: "length (raw_samples st) = length (line_samples st)"
  shows "length (raw_samples st') = length (line_samples st')"
proof -
  from b obtain r where r: "rd raw (idx st) = Some r"
    by (auto simp: sample_body_def split: option.splits)
  from b r obtain l where l: "rd lines (idx st) = Some l"
    by (auto simp: sample_body_def split: option.splits)
  define st1 where "st1 = st\<lparr>idx := Suc (idx st),
              raw_samples := raw_samples st @ [SIZET2NUM (scast (ucast r :: c_int))],
              line_samples := line_samples st @ [INT2NUM l]\<rparr>"
  from b r l obtain st2 where
    f: "frames_loop A raw lines (nat (sint (ucast r :: c_int))) st1 = Some st2"
    by (auto simp: sample_body_def Let_def st1_def split: option.splits)
  from b r l f obtain st3 where p1: "push_sample raw lines st2 = Some st3"
    by (auto simp: sample_body_def Let_def st1_def split: option.splits)
  from b r l f p1 have p2: "push_sample raw lines st3 = Some st'"
    by (simp add: sample_body_def Let_def st1_def)
  have "length (raw_samples st1) = length (line_samples st1)"
    using eq by (simp add: st1_def)
  from frames_loop_len [OF f this]
  have "length (raw_samples st2) = length (line_samples st2)" .
  from push_sample_len [OF p2 push_sample_len [OF p1 this]] show ?thesis .
qed

lemma samples_loop_len:
  "samples_loop A raw lines n st = Some st' \<Longrightarrow>
   length (raw_samples st) = length (line_samples st) \<Longrightarrow>
   length (raw_samples st') = length (line_samples st')"
proof (induction A raw lines n st rule: samples_loop.induct)
  case (1 A raw lines n st)
  show ?case
  proof (cases "int (idx st) < sint n")
    case True
    with "1.prems"(1) obtain st1 where
      b: "sample_body A raw lines st = Some st1"
      and r: "samples_loop A raw lines n st1 = Some st'"
      by (subst (asm) samples_loop.simps) (auto split: option.splits)
    from sample_body_len [OF b "1.prems"(2)] "1.IH" [OF True b r] show ?thesis by simp
  next
    case False
    with "1.prems" show ?thesis
      by (subst (asm) samples_loop.simps) simp
  qed
qed

lemma dict_same_length:
  "rb_yjit_exit_locations_dict A raw lines n = Some r \<Longrightarrow>
   \<exists>rs ls fs. r = RHash [(RSym ''raw'', RAry rs), (RSym ''lines'', RAry ls),
                          (RSym ''frames'', RHash fs)] \<and>
              length rs = length ls"
  by (auto simp: rb_yjit_exit_locations_dict_def Let_def split: option.splits
      dest!: samples_loop_len)

text \<open>The run on an encoded sample sequence.\<close>

lemma frames_loop_run:
  "raw = pre @ fs @ post \<Longrightarrow> idx st = length pre \<Longrightarrow> length pre + length fs \<le> length lines \<Longrightarrow>
   frames_loop A raw lines (length fs) st =
     Some \<lparr>idx = length pre + length fs,
           raw_samples = raw_samples st @ map SIZET2NUM fs,
           line_samples = line_samples st @ map INT2NUM (take (length fs) (drop (length pre) lines)),
           frames = foldl (\<lambda>h (f, t). rb_yjit_add_frame A t h f) (frames st)
                      (zip fs [length pre..<length pre + length fs])\<rparr>"
proof (induction fs arbitrary: pre st)
  case Nil
  then show ?case by simp
next
  case (Cons f fs)
  let ?st1 = "\<lparr>idx = Suc (length pre),
           raw_samples = raw_samples st @ [SIZET2NUM f],
           line_samples = line_samples st @ [INT2NUM (lines ! length pre)],
           frames = rb_yjit_add_frame A (length pre) (frames st) f\<rparr>"
  have lt: "length pre < length lines" using Cons.prems(3) by simp
  have p: "push_sample raw lines (st\<lparr>frames := rb_yjit_add_frame A (idx st) (frames st) f\<rparr>)
             = Some ?st1"
    using Cons.prems(1,2) lt by (simp add: push_sample_def rd_in_range)
  have raw': "raw = (pre @ [f]) @ fs @ post" using Cons.prems(1) by simp
  have "frames_loop A raw lines (length fs) ?st1 =
     Some \<lparr>idx = length (pre @ [f]) + length fs,
           raw_samples = raw_samples ?st1 @ map SIZET2NUM fs,
           line_samples = line_samples ?st1 @
              map INT2NUM (take (length fs) (drop (length (pre @ [f])) lines)),
           frames = foldl (\<lambda>h (f, t). rb_yjit_add_frame A t h f) (frames ?st1)
                      (zip fs [length (pre @ [f])..<length (pre @ [f]) + length fs])\<rparr>"
    by (rule Cons.IH [OF raw']) (use Cons.prems(3) in simp_all)
  moreover have "[length pre..<length pre + length (f # fs)] =
                 length pre # [Suc (length pre)..<Suc (length pre) + length fs]"
    by (subst upt_rec) simp
  ultimately show ?case
    using Cons.prems(1,2) p lt by (simp add: take_Suc_drop)
qed

lemma sample_body_run:
  assumes raw: "raw = pre @ (of_nat (length fs) # fs @ [a, b]) @ post"
    and i: "idx st = length pre"
    and ln: "length pre + length fs + 3 \<le> length lines"
    and small: "length fs < 2 ^ 31"
  shows "sample_body A raw lines st =
     Some \<lparr>idx = length pre + length fs + 3,
           raw_samples = raw_samples st @ map SIZET2NUM (of_nat (length fs) # fs @ [a, b]),
           line_samples = line_samples st @
              map INT2NUM (take (length fs + 3) (drop (length pre) lines)),
           frames = foldl (\<lambda>h (f, t). rb_yjit_add_frame A t h f) (frames st)
                      (zip fs [Suc (length pre)..<Suc (length pre) + length fs])\<rparr>"
proof -
  let ?hdr = "of_nat (length fs) :: VALUE"
  let ?st1 = "st\<lparr>idx := Suc (idx st),
                 raw_samples := raw_samples st @ [SIZET2NUM (scast (ucast ?hdr :: c_int))],
                 line_samples := line_samples st @ [INT2NUM (lines ! length pre)]\<rparr>"
  have num: "nat (sint (ucast ?hdr :: c_int)) = length fs"
    using small by (simp add: ucast_of_nat_down sint_of_nat_small)
  have hdr: "(scast (ucast ?hdr :: c_int) :: size_t) = ?hdr"
    using small by (simp add: ucast_of_nat_down scast_of_nat_small)
  have raw1: "raw = (pre @ [?hdr]) @ fs @ ([a, b] @ post)" using raw by simp
  have i1: "idx ?st1 = length (pre @ [?hdr])" using i by simp
  have ln1: "length (pre @ [?hdr]) + length fs \<le> length lines" using ln by simp
  let ?st2 = "\<lparr>idx = length (pre @ [?hdr]) + length fs,
           raw_samples = raw_samples ?st1 @ map SIZET2NUM fs,
           line_samples = line_samples ?st1 @
              map INT2NUM (take (length fs) (drop (length (pre @ [?hdr])) lines)),
           frames = foldl (\<lambda>h (f, t). rb_yjit_add_frame A t h f) (frames ?st1)
                      (zip fs [length (pre @ [?hdr])..<length (pre @ [?hdr]) + length fs])\<rparr>"
  have f: "frames_loop A raw lines (length fs) ?st1 = Some ?st2"
    by (rule frames_loop_run [OF raw1 i1 ln1])
  have ra: "rd raw (Suc (length pre + length fs)) = Some a"
    using rd_append_at [of "pre @ ?hdr # fs" a "b # post"] raw by simp
  have rb: "rd raw (Suc (Suc (length pre + length fs))) = Some b"
    using rd_append_at [of "pre @ ?hdr # fs @ [a]" b post] raw by simp
  have la: "rd lines (Suc (length pre + length fs)) = Some (lines ! Suc (length pre + length fs))"
    using ln by (simp add: rd_in_range)
  have lb: "rd lines (Suc (Suc (length pre + length fs))) =
              Some (lines ! Suc (Suc (length pre + length fs)))"
    using ln by (simp add: rd_in_range)
  have l0: "rd lines (length pre) = Some (lines ! length pre)"
    using ln by (simp add: rd_in_range)
  have r0: "rd raw (length pre) = Some ?hdr"
    using raw by simp
  have tk: "take (length fs + 3) (drop (length pre) lines) =
            lines ! length pre # take (length fs) (drop (Suc (length pre)) lines) @
            [lines ! Suc (length pre + length fs), lines ! Suc (Suc (length pre + length fs))]"
  proof -
    have "take (length fs + 3) (drop (length pre) lines) =
          take (Suc (length fs)) (drop (length pre) lines) @
          take 2 (drop (Suc (length fs)) (drop (length pre) lines))"
      by (metis Suc_eq_plus1 add_Suc_right numeral_2_eq_2 numeral_3_eq_3 take_add add.commute
          add_2_eq_Suc' add_Suc)
    moreover have "take 2 (drop (Suc (length pre + length fs)) lines) =
          [lines ! Suc (length pre + length fs), lines ! Suc (Suc (length pre + length fs))]"
      using ln take_Suc_drop [of "Suc (length pre + length fs)" lines 1]
        take_Suc_drop [of "Suc (Suc (length pre + length fs))" lines 0]
      by (simp add: numeral_2_eq_2)
    ultimately show ?thesis
      using ln by (simp add: take_Suc_drop add.commute)
  qed
  show ?thesis
    using i r0 l0 f ra rb la lb
    by (simp add: sample_body_def Let_def num hdr push_sample_def tk)
qed


lemma samples_loop_run:
  "raw = pre @ encode_samples ss \<Longrightarrow> idx st = length pre \<Longrightarrow> length raw \<le> length lines \<Longrightarrow>
   sint n = int (length raw) \<Longrightarrow>
   samples_loop A raw lines n st =
     Some \<lparr>idx = length raw,
           raw_samples = raw_samples st @ map SIZET2NUM (encode_samples ss),
           line_samples = line_samples st @
              map INT2NUM (take (length (encode_samples ss)) (drop (length pre) lines)),
           frames = foldl (\<lambda>h (f, t). rb_yjit_add_frame A t h f) (frames st)
                      (sampled_frames_at (length pre) ss)\<rparr>"
proof (induction ss arbitrary: pre st)
  case Nil
  then show ?case
    by (subst samples_loop.simps) simp
next
  case (Cons s ss)
  obtain fs a b where s: "s = (fs, a, b)" by (cases s)
  let ?enc = "of_nat (length fs) # fs @ [a, b] :: VALUE list"
  have raw: "raw = pre @ ?enc @ encode_samples ss"
    using Cons.prems(1) s by simp
  have "sint n < 2 ^ 31"
    using sint_lt [of n] by simp
  then have small: "length fs < 2 ^ 31"
    using Cons.prems(4) raw by simp
  have ln: "length pre + length fs + 3 \<le> length lines"
    using Cons.prems(3) raw by simp
  have lt: "int (idx st) < sint n"
    using Cons.prems(2,4) raw by simp
  let ?st1 = "\<lparr>idx = length pre + length fs + 3,
           raw_samples = raw_samples st @ map SIZET2NUM ?enc,
           line_samples = line_samples st @
              map INT2NUM (take (length fs + 3) (drop (length pre) lines)),
           frames = foldl (\<lambda>h (f, t). rb_yjit_add_frame A t h f) (frames st)
                      (zip fs [Suc (length pre)..<Suc (length pre) + length fs])\<rparr>"
  have body: "sample_body A raw lines st = Some ?st1"
    by (rule sample_body_run [OF _ Cons.prems(2) ln small]) (use raw in simp)
  have raw': "raw = (pre @ ?enc) @ encode_samples ss" using raw by simp
  have i1: "idx ?st1 = length (pre @ ?enc)" by simp
  have rest: "samples_loop A raw lines n ?st1 =
     Some \<lparr>idx = length raw,
           raw_samples = raw_samples ?st1 @ map SIZET2NUM (encode_samples ss),
           line_samples = line_samples ?st1 @
              map INT2NUM (take (length (encode_samples ss)) (drop (length (pre @ ?enc)) lines)),
           frames = foldl (\<lambda>h (f, t). rb_yjit_add_frame A t h f) (frames ?st1)
                      (sampled_frames_at (length (pre @ ?enc)) ss)\<rparr>"
    by (rule Cons.IH [OF raw' i1 Cons.prems(3) Cons.prems(4)])
  have e1: "length (?enc @ encode_samples ss) = (length fs + 3) + length (encode_samples ss)"
    by simp
  have e0: "length (pre @ ?enc) = (length fs + 3) + length pre"
    by simp
  have e2: "drop (length (pre @ ?enc)) lines = drop (length fs + 3) (drop (length pre) lines)"
    by (simp only: e0 drop_drop)
  have tk: "take (length (?enc @ encode_samples ss)) (drop (length pre) lines) =
            take (length fs + 3) (drop (length pre) lines) @
            take (length (encode_samples ss)) (drop (length (pre @ ?enc)) lines)"
    unfolding e1 e2 by (rule take_add)
  have e3: "length pre + length fs + 3 = length (pre @ ?enc)"
    by simp
  have fr: "sampled_frames_at (length pre) (s # ss) =
            zip fs [Suc (length pre)..<Suc (length pre) + length fs] @
            sampled_frames_at (length (pre @ ?enc)) ss"
    unfolding s sampled_frames_at.simps e3 ..
  have en: "encode_samples (s # ss) = ?enc @ encode_samples ss"
    by (simp add: s)
  have step: "samples_loop A raw lines n st = samples_loop A raw lines n ?st1"
    using lt body by (subst samples_loop.simps) simp
  show ?case
    unfolding step rest tk fr en
    by (simp only: exit_locations.select_convs map_append append_assoc foldl_append)
qed

lemma dict_run:
  assumes raw: "raw = encode_samples ss" and ln: "length raw \<le> length lines"
    and n: "sint n = int (length raw)"
  shows "rb_yjit_exit_locations_dict A raw lines n =
     Some (RHash [(RSym ''raw'', RAry (map SIZET2NUM raw)),
                  (RSym ''lines'', RAry (map INT2NUM (take (length raw) lines))),
                  (RSym ''frames'',
                   RHash (foldl (\<lambda>h (f, t). rb_yjit_add_frame A t h f) []
                            (sampled_frames_at 0 ss)))])"
proof -
  have "raw = [] @ encode_samples ss" using raw by simp
  from samples_loop_run [OF this _ ln n,
      of "\<lparr>idx = 0, raw_samples = [], line_samples = [], frames = []\<rparr>" A]
  show ?thesis
    using raw by (simp add: rb_yjit_exit_locations_dict_def Let_def)
qed

text \<open>The frames hash.\<close>

lemma aset_fresh: "k \<notin> fst ` set h \<Longrightarrow> rb_hash_aset h k v = h @ [(k, v)]"
  by (induction h) auto

lemma add_frame_inv:
  assumes inv: "frames_inv A seen h"
  shows "frames_inv A (seen @ [(f, t)]) (rb_yjit_add_frame A t h f)"
proof (cases "f \<in> fst ` set seen")
  case True
  then obtain t' where t': "map_of seen f = Some t'"
    by (metis map_of_eq_None_iff not_Some_eq)
  with inv have "map_of h (PTR2NUM f) = Some (RHash (new_frame_info A t' f))"
    by (simp add: frames_inv_def)
  then have same: "rb_yjit_add_frame A t h f = h"
    by (simp add: rb_yjit_add_frame_def rb_hash_aref_def RTEST_def)
  have m: "map_of (seen @ [(f, t)]) g = map_of seen g" for g
    using t' by (cases "map_of seen g") (auto simp: map_add_def split: option.splits)
  have k: "set (map fst (seen @ [(f, t)])) = set (map fst seen)"
    using True by auto
  from inv show ?thesis
    unfolding same frames_inv_def m k .
next
  case False
  have nk: "PTR2NUM f \<notin> fst ` set h"
  proof
    assume "PTR2NUM f \<in> fst ` set h"
    with inv have "PTR2NUM f \<in> PTR2NUM ` fst ` set seen"
      by (simp add: frames_inv_def)
    then obtain g where "g \<in> fst ` set seen" and "PTR2NUM f = PTR2NUM g"
      by blast
    with False show False by simp
  qed
  then have "map_of h (PTR2NUM f) = None"
    by (simp add: map_of_eq_None_iff)
  then have app: "rb_yjit_add_frame A t h f = h @ [(PTR2NUM f, RHash (new_frame_info A t f))]"
    using nk by (simp add: rb_yjit_add_frame_def rb_hash_aref_def RTEST_def aset_fresh)
  have none: "map_of seen f = None"
    using False by (simp add: map_of_eq_None_iff)
  have look: "map_of (h @ [(PTR2NUM f, RHash (new_frame_info A t f))]) (PTR2NUM g) =
                Some (RHash (new_frame_info A t' g))"
    if "map_of (seen @ [(f, t)]) g = Some t'" for g t'
  proof (cases "g = f")
    case True
    with that none have "t' = t" by (simp add: map_add_def)
    with True \<open>map_of h (PTR2NUM f) = None\<close> show ?thesis
      by (simp add: map_add_def)
  next
    case False
    with that have "map_of seen g = Some t'"
      by (auto simp: map_add_def split: option.splits)
    with inv have "map_of h (PTR2NUM g) = Some (RHash (new_frame_info A t' g))"
      by (simp add: frames_inv_def)
    then show ?thesis by (simp add: map_add_def)
  qed
  from inv nk look show ?thesis
    unfolding app frames_inv_def by auto
qed

lemma foldl_add_frame_inv:
  "frames_inv A seen h \<Longrightarrow>
   frames_inv A (seen @ fts) (foldl (\<lambda>h (f, t). rb_yjit_add_frame A t h f) h fts)"
proof (induction fts arbitrary: seen h)
  case Nil
  then show ?case by simp
next
  case (Cons ft fts)
  obtain f t where ft: "ft = (f, t)" by (cases ft)
  from Cons.IH [OF add_frame_inv [OF Cons.prems, of f t]] show ?case
    by (simp add: ft)
qed

lemma fst_zip_upt: "map fst (zip fs [a..<a + length fs]) = fs"
  by (rule map_fst_zip) simp

lemma fst_sampled_frames_at: "map fst (sampled_frames_at i ss) = sampled_frames ss"
proof (induction ss arbitrary: i)
  case Nil
  show ?case by (simp add: sampled_frames_def)
next
  case (Cons s ss)
  obtain fs a b where s: "s = (fs, a, b)" by (cases s)
  have "map fst (sampled_frames_at i (s # ss)) =
        map fst (zip fs [Suc i..<Suc i + length fs]) @
        map fst (sampled_frames_at (i + length fs + 3) ss)"
    unfolding s sampled_frames_at.simps map_append ..
  also have "\<dots> = fs @ sampled_frames ss"
    unfolding fst_zip_upt Cons.IH ..
  finally show ?case
    by (simp add: s sampled_frames_def)
qed

lemma new_frame_info_counters:
  "rb_hash_aref (new_frame_info A t f) (RSym ''samples'') = RInt 0 \<and>
   rb_hash_aref (new_frame_info A t f) (RSym ''total_samples'') = RInt 0"
  by (simp add: new_frame_info_def Let_def rb_hash_aref_def INT2NUM_def)

lemma add_frame_keeps:
  "RTEST (rb_hash_aref h (PTR2NUM f)) \<Longrightarrow> rb_yjit_add_frame A t h f = h"
  by (simp add: rb_yjit_add_frame_def)


text \<open>
  C9. For the raw array of a sequence of stack samples (with a line array at least as long
  and \<open>samples_len\<close> the raw array's length) the export returns, and its frames mapping has
  exactly one entry for each distinct frame of the samples: the keys are pairwise distinct,
  they are the identities of the sampled frames, and there are as many entries as distinct
  frames. The record of a frame is the one built at the frame's first occurrence, with
  \<open>samples\<close> and \<open>total_samples\<close> zero; \<open>rb_yjit_add_frame\<close> leaves a hash that has a
  record for the frame as it is.
\<close>

theorem frames_one_entry_per_frame:
  assumes raw: "raw = encode_samples ss" and ln: "length raw \<le> length lines"
    and n: "sint n = int (length raw)"
  shows "\<exists>rs ls fs.
     rb_yjit_exit_locations_dict A raw lines n =
       Some (RHash [(RSym ''raw'', RAry rs), (RSym ''lines'', RAry ls),
                    (RSym ''frames'', RHash fs)]) \<and>
     distinct (map fst fs) \<and>
     set (map fst fs) = PTR2NUM ` set (sampled_frames ss) \<and>
     length fs = length (remdups (sampled_frames ss)) \<and>
     (\<forall>f \<in> set (sampled_frames ss).
        \<exists>t. first_seen ss f = Some t \<and>
            map_of fs (PTR2NUM f) = Some (RHash (new_frame_info A t f)) \<and>
            rb_hash_aref (new_frame_info A t f) (RSym ''samples'') = RInt 0 \<and>
            rb_hash_aref (new_frame_info A t f) (RSym ''total_samples'') = RInt 0) \<and>
     (\<forall>h f t. RTEST (rb_hash_aref h (PTR2NUM f)) \<longrightarrow> rb_yjit_add_frame A t h f = h)"
proof -
  define fs where "fs = foldl (\<lambda>h (f, t). rb_yjit_add_frame A t h f) []
                            (sampled_frames_at 0 ss)"
  have "frames_inv A [] []" by (simp add: frames_inv_def)
  from foldl_add_frame_inv [OF this, of "sampled_frames_at 0 ss"]
  have inv: "frames_inv A (sampled_frames_at 0 ss) fs" by (simp add: fs_def)
  have d: "distinct (map fst fs)"
    using inv by (simp add: frames_inv_def)
  have k: "set (map fst fs) = PTR2NUM ` set (sampled_frames ss)"
    using inv by (simp add: frames_inv_def fst_sampled_frames_at)
  have "length fs = card (set (map fst fs))"
    using distinct_card [OF d] by simp
  also have "\<dots> = card (set (sampled_frames ss))"
    unfolding k by (rule card_image) (simp add: inj_on_def)
  also have "\<dots> = length (remdups (sampled_frames ss))"
    by (simp add: length_remdups_card_conv)
  finally have c: "length fs = length (remdups (sampled_frames ss))" .
  have r: "\<exists>t. first_seen ss f = Some t \<and>
            map_of fs (PTR2NUM f) = Some (RHash (new_frame_info A t f)) \<and>
            rb_hash_aref (new_frame_info A t f) (RSym ''samples'') = RInt 0 \<and>
            rb_hash_aref (new_frame_info A t f) (RSym ''total_samples'') = RInt 0"
    if "f \<in> set (sampled_frames ss)" for f
  proof -
    from that have "f \<in> fst ` set (sampled_frames_at 0 ss)"
      using fst_sampled_frames_at [of 0 ss] by (metis set_map)
    then obtain t where t: "map_of (sampled_frames_at 0 ss) f = Some t"
      by (metis map_of_eq_None_iff not_Some_eq)
    with inv have "map_of fs (PTR2NUM f) = Some (RHash (new_frame_info A t f))"
      by (simp add: frames_inv_def)
    with t new_frame_info_counters [of A t f] show ?thesis
      by (auto simp: first_seen_def)
  qed
  from dict_run [OF raw ln n, of A] d k c r add_frame_keeps show ?thesis
    unfolding fs_def [symmetric] by blast
qed

theorem frames_one_entry_per_frame_witness:
  "\<exists>rs ls fs.
     rb_yjit_exit_locations_dict sample_api [2, 7, 9, 100, 1, 1, 7, 101, 1]
        [0, 10, 20, 0, 0, 0, 11, 0, 0] 9 =
       Some (RHash [(RSym ''raw'', RAry rs), (RSym ''lines'', RAry ls),
                    (RSym ''frames'', RHash fs)]) \<and>
     distinct (map fst fs) \<and>
     set (map fst fs) = {RInt 7, RInt 9} \<and>
     length fs = 2 \<and>
     map_of fs (RInt 7) = Some (RHash (new_frame_info sample_api 1 7)) \<and>
     map_of fs (RInt 9) = Some (RHash (new_frame_info sample_api 2 9))"
proof -
  let ?ss = "[([7, 9], 100, 1), ([7], 101, 1)] :: stack_sample list"
  have e: "[2, 7, 9, 100, 1, 1, 7, 101, 1] = encode_samples ?ss" by simp
  have fr: "sampled_frames ?ss = [7, 9, 7]" by (simp add: sampled_frames_def)
  have f7: "first_seen ?ss 7 = Some 1" by (simp add: first_seen_def upt_rec)
  have f9: "first_seen ?ss 9 = Some 2" by (simp add: first_seen_def upt_rec)
  have ln: "length [2, 7, 9, 100, 1, 1, 7, 101, 1 :: VALUE] \<le>
            length [0, 10, 20, 0, 0, 0, 11, 0, 0 :: c_int]" by simp
  have n: "sint (9 :: c_int) = int (length [2, 7, 9, 100, 1, 1, 7, 101, 1 :: VALUE])" by simp
  from frames_one_entry_per_frame [OF e ln n, of sample_api]
  obtain rs ls fs where
    r: "rb_yjit_exit_locations_dict sample_api [2, 7, 9, 100, 1, 1, 7, 101, 1]
          [0, 10, 20, 0, 0, 0, 11, 0, 0] 9 =
        Some (RHash [(RSym ''raw'', RAry rs), (RSym ''lines'', RAry ls),
                     (RSym ''frames'', RHash fs)])"
    and d: "distinct (map fst fs)"
    and k: "set (map fst fs) = PTR2NUM ` set (sampled_frames ?ss)"
    and c: "length fs = length (remdups (sampled_frames ?ss))"
    and m: "\<forall>f \<in> set (sampled_frames ?ss).
        \<exists>t. first_seen ?ss f = Some t \<and>
            map_of fs (PTR2NUM f) = Some (RHash (new_frame_info sample_api t f)) \<and>
            rb_hash_aref (new_frame_info sample_api t f) (RSym ''samples'') = RInt 0 \<and>
            rb_hash_aref (new_frame_info sample_api t f) (RSym ''total_samples'') = RInt 0"
    by blast
  from m have "map_of fs (PTR2NUM 7) = Some (RHash (new_frame_info sample_api 1 7))"
    and "map_of fs (PTR2NUM 9) = Some (RHash (new_frame_info sample_api 2 9))"
    unfolding fr using f7 f9 by auto
  with r d k c show ?thesis
    unfolding fr by (auto simp: PTR2NUM_def)
qed

text \<open>
  C10. Whatever the input, if the export returns, its \<open>raw\<close> and \<open>lines\<close> sequences have
  the same length. For the raw array of a sequence of stack samples (with a line array at
  least as long and \<open>samples_len\<close> the raw array's length) it does return: \<open>raw\<close> has one
  element for each entry of the raw array and \<open>lines\<close> the element of the line array at
  the same index.
\<close>

theorem raw_and_lines_same_length:
  "(\<forall>r. rb_yjit_exit_locations_dict A raw lines n = Some r \<longrightarrow>
        (\<exists>rs ls fs. r = RHash [(RSym ''raw'', RAry rs), (RSym ''lines'', RAry ls),
                               (RSym ''frames'', RHash fs)] \<and>
                    length rs = length ls)) \<and>
   (raw = encode_samples ss \<and> length raw \<le> length lines \<and> sint n = int (length raw) \<longrightarrow>
      (\<exists>fs. rb_yjit_exit_locations_dict A raw lines n =
              Some (RHash [(RSym ''raw'', RAry (map SIZET2NUM raw)),
                           (RSym ''lines'', RAry (map INT2NUM (take (length raw) lines))),
                           (RSym ''frames'', RHash fs)])))"
  using dict_same_length [of A raw lines n] dict_run [of raw ss lines n A]
  by blast

theorem raw_and_lines_same_length_witness:
  "\<exists>fs. rb_yjit_exit_locations_dict sample_api [2, 7, 9, 100, 1, 1, 7, 101, 1]
        [0, 10, 20, 0, 0, 0, 11, 0, 0] 9 =
     Some (RHash [(RSym ''raw'', RAry [RInt 2, RInt 7, RInt 9, RInt 100, RInt 1,
                                        RInt 1, RInt 7, RInt 101, RInt 1]),
                  (RSym ''lines'', RAry [RInt 0, RInt 10, RInt 20, RInt 0, RInt 0,
                                          RInt 0, RInt 11, RInt 0, RInt 0]),
                  (RSym ''frames'', RHash fs)])"
proof -
  let ?raw = "[2, 7, 9, 100, 1, 1, 7, 101, 1] :: VALUE list"
  let ?lines = "[0, 10, 20, 0, 0, 0, 11, 0, 0] :: c_int list"
  let ?ss = "[([7, 9], 100, 1), ([7], 101, 1)] :: stack_sample list"
  have e: "?raw = encode_samples ?ss" by simp
  have ln: "length ?raw \<le> length ?lines" by simp
  have n: "sint (9 :: c_int) = int (length ?raw)" by simp
  have rs: "map SIZET2NUM ?raw = [RInt 2, RInt 7, RInt 9, RInt 100, RInt 1,
                                   RInt 1, RInt 7, RInt 101, RInt 1]"
    by (simp add: SIZET2NUM_def)
  have ls: "map INT2NUM (take (length ?raw) ?lines) =
              [RInt 0, RInt 10, RInt 20, RInt 0, RInt 0, RInt 0, RInt 11, RInt 0, RInt 0]"
    by (simp add: INT2NUM_def)
  from raw_and_lines_same_length [of sample_api ?raw ?lines 9 ?ss]
  have "?raw = encode_samples ?ss \<and> length ?raw \<le> length ?lines \<and>
        sint (9 :: c_int) = int (length ?raw) \<longrightarrow>
        (\<exists>fs. rb_yjit_exit_locations_dict sample_api ?raw ?lines 9 =
              Some (RHash [(RSym ''raw'', RAry (map SIZET2NUM ?raw)),
                           (RSym ''lines'', RAry (map INT2NUM (take (length ?raw) ?lines))),
                           (RSym ''frames'', RHash fs)]))"
    by (rule conjunct2)
  with e ln n have "\<exists>fs. rb_yjit_exit_locations_dict sample_api ?raw ?lines 9 =
              Some (RHash [(RSym ''raw'', RAry (map SIZET2NUM ?raw)),
                           (RSym ''lines'', RAry (map INT2NUM (take (length ?raw) ?lines))),
                           (RSym ''frames'', RHash fs)])"
    by blast
  then show ?thesis
    unfolding rs ls .
qed


end
